theory Spec2Isabelle
  imports Main "HOL-Library.AList" "HOL-Library.Sublist"
begin

section \<open>Admission queue (queue-manager.js, class QueueManager)\<close>

text \<open>
  The QueueManager object is a record that every method takes and returns.
  \<open>Date.now()\<close> is the argument \<open>now\<close> (milliseconds, one reading per
  synchronous call). Session ids are strings; \<open>null\<close> in the active slot is
  \<open>None\<close>. A JavaScript \<open>Map\<close> keeps insertion order, so both maps of the
  class are association lists with unique keys: \<open>set\<close> is \<open>AList.update\<close>
  (in place, or appended at the end), \<open>delete\<close> is \<open>AList.delete\<close>,
  \<open>get\<close> is \<open>map_of\<close>. Every \<open>setTimeout\<close> of the class schedules
  \<open>checkSessionTimeout\<close>; the field \<open>timers\<close> logs each one as
  (due time, session id).
\<close>

datatype status = Waiting | Active

record fileInfo =
  fileName :: string
  pageCount :: int
  timestamp :: int

record session =
  session_id :: string
  session_fileInfo :: fileInfo
  joinedAt :: int
  status :: status
  activatedAt :: "int option"

record queue_manager =
  queue :: "string list"
  activeSession :: "string option"
  sessions :: "(string \<times> session) list"
  lastActivityTime :: "(string \<times> int) list"
  completedSessions :: nat
  timers :: "(int \<times> string) list"

definition sessionTimeout :: int where
  "sessionTimeout = 90000"

definition MAX_QUEUE_SIZE :: nat where
  "MAX_QUEUE_SIZE = 10"

definition maxWaitTime :: int where
  "maxWaitTime = 10 * 60 * 1000"

text \<open>The constructor.\<close>

definition new_QueueManager :: queue_manager where
  "new_QueueManager =
     \<lparr> queue = [], activeSession = None, sessions = [],
       lastActivityTime = [], completedSessions = 0, timers = [] \<rparr>"

text \<open>
  JavaScript truthiness of the active slot, as in \<open>if (!this.activeSession)\<close>:
  \<open>null\<close> and the empty string are falsy.
\<close>

definition truthy :: "string option \<Rightarrow> bool" where
  "truthy a = (case a of None \<Rightarrow> False | Some s \<Rightarrow> s \<noteq> [])"

text \<open>\<open>Array.prototype.indexOf\<close>: the first index, or -1.\<close>

fun indexOf :: "'a list \<Rightarrow> 'a \<Rightarrow> int" where
  "indexOf [] x = -1"
| "indexOf (y # ys) x =
     (if x = y then 0 else (let i = indexOf ys x in if i < 0 then -1 else i + 1))"

text \<open>
  The first half of \<open>removeSession\<close>: clear the active slot if it holds the id,
  splice the first occurrence out of the queue, delete the session data.
\<close>

definition drop_session :: "string \<Rightarrow> queue_manager \<Rightarrow> queue_manager" where
  "drop_session sessionId st =
     st\<lparr> activeSession := (if activeSession st = Some sessionId then None else activeSession st),
         queue := remove1 sessionId (queue st),
         sessions := AList.delete sessionId (sessions st),
         lastActivityTime := AList.delete sessionId (lastActivityTime st) \<rparr>"

text \<open>
  The activation block that \<open>joinQueue\<close> and \<open>processQueue\<close> both contain:
  fill the slot, mark the session object active, stamp \<open>activatedAt\<close> and the
  last activity, and arm the timeout.
\<close>

definition activate :: "int \<Rightarrow> string \<Rightarrow> session \<Rightarrow> queue_manager \<Rightarrow> queue_manager" where
  "activate now sessionId s st =
     st\<lparr> activeSession := Some sessionId,
         sessions := AList.update sessionId
                       (s\<lparr> status := Active, activatedAt := Some now \<rparr>) (sessions st),
         lastActivityTime := AList.update sessionId now (lastActivityTime st),
         timers := timers st @ [(now + sessionTimeout, sessionId)] \<rparr>"

text \<open>
  \<open>removeSession\<close>, \<open>processQueue\<close> and \<open>cleanupExpiredSessions\<close> call each
  other. The \<open>for ... of this.sessions\<close> loop of the sweep is
  \<open>cleanup_loop\<close> over the keys present when the loop starts: a key deleted
  before its turn is skipped, its value is read at its turn, and nothing is
  added to the map while the loop runs, which is what the live iteration does.
\<close>

function removeSession :: "int \<Rightarrow> string \<Rightarrow> bool \<Rightarrow> queue_manager \<Rightarrow> queue_manager"
  and processQueue :: "int \<Rightarrow> queue_manager \<Rightarrow> string option \<times> queue_manager"
  and cleanupExpiredSessions :: "int \<Rightarrow> queue_manager \<Rightarrow> queue_manager"
  and cleanup_loop :: "int \<Rightarrow> string list \<Rightarrow> queue_manager \<Rightarrow> queue_manager"
where
  "removeSession now sessionId processNext st =
     (let wasActive = (activeSession st = Some sessionId);
          st1 = drop_session sessionId st
      in if wasActive \<and> processNext then snd (processQueue now st1) else st1)"
| "processQueue now st =
     (let st1 = cleanupExpiredSessions now st
      in case queue st1 of
           [] \<Rightarrow> (None, st1\<lparr> activeSession := None \<rparr>)
         | nextSessionId # rest \<Rightarrow>
             (case map_of (sessions st1) nextSessionId of
                None \<Rightarrow> processQueue now (st1\<lparr> queue := rest \<rparr>)
              | Some s \<Rightarrow>
                  (Some nextSessionId, activate now nextSessionId s (st1\<lparr> queue := rest \<rparr>))))"
| "cleanupExpiredSessions now st = cleanup_loop now (map fst (sessions st)) st"
| "cleanup_loop now [] st = st"
| "cleanup_loop now (k # ks) st =
     (case map_of (sessions st) k of
        None \<Rightarrow> cleanup_loop now ks st
      | Some s \<Rightarrow>
          if status s = Waiting \<and> now - joinedAt s > maxWaitTime
          then cleanup_loop now ks (removeSession now k True st)
          else cleanup_loop now ks st)"
  by pat_completeness auto

text \<open>
  Termination. On the domain of the recursion no call lengthens the queue, and
  removing a session or sweeping never fills an empty active slot. A nested
  \<open>processQueue\<close> starts only from \<open>removeSession\<close> of the active session,
  which empties the slot; with the slot empty nothing nests further, and a
  repeated \<open>processQueue\<close> has a shorter queue.
\<close>

termination
proof -
  have rq: "length (remove1 x q) \<le> length q" for x :: string and q
    by (cases "x \<in> set q") (simp_all add: length_remove1 remove1_idem)
  have dq: "length (queue (drop_session sid st)) \<le> length (queue st)" for sid st
    by (simp add: drop_session_def rq)
  have shrink:
    "removeSession_processQueue_cleanupExpiredSessions_cleanup_loop_dom (Inl (Inl (now, sid, pn, st))) \<Longrightarrow>
       length (queue (removeSession now sid pn st)) \<le> length (queue st) \<and>
       (activeSession st = None \<longrightarrow> activeSession (removeSession now sid pn st) = None)"
    "removeSession_processQueue_cleanupExpiredSessions_cleanup_loop_dom (Inl (Inr (now1, st1))) \<Longrightarrow>
       length (queue (snd (processQueue now1 st1))) \<le> length (queue st1)"
    "removeSession_processQueue_cleanupExpiredSessions_cleanup_loop_dom (Inr (Inl (now2, st2))) \<Longrightarrow>
       length (queue (cleanupExpiredSessions now2 st2)) \<le> length (queue st2) \<and>
       (activeSession st2 = None \<longrightarrow> activeSession (cleanupExpiredSessions now2 st2) = None)"
    "removeSession_processQueue_cleanupExpiredSessions_cleanup_loop_dom (Inr (Inr (now3, ks, st3))) \<Longrightarrow>
       length (queue (cleanup_loop now3 ks st3)) \<le> length (queue st3) \<and>
       (activeSession st3 = None \<longrightarrow> activeSession (cleanup_loop now3 ks st3) = None)"
    for now sid pn st now1 st1 now2 st2 now3 ks st3
  proof (induct rule: removeSession_processQueue_cleanupExpiredSessions_cleanup_loop.pinduct)
    case (1 now sessionId processNext st)
    show ?case
    proof (cases "activeSession st = Some sessionId \<and> processNext")
      case True
      have "length (queue (snd (processQueue now (drop_session sessionId st))))
              \<le> length (queue (drop_session sessionId st))"
        using 1(2) True by simp
      also have "\<dots> \<le> length (queue st)" by (rule dq)
      finally show ?thesis using True 1(1) by (simp add: removeSession.psimps)
    next
      case False
      then show ?thesis using 1(1)
        by (auto simp: removeSession.psimps rq drop_session_def)
    qed
  next
    case (2 now st)
    define st1 where "st1 = cleanupExpiredSessions now st"
    have le1: "length (queue st1) \<le> length (queue st)"
      using 2(2) by (simp add: st1_def)
    show ?case
    proof (cases "queue st1")
      case Nil
      then show ?thesis using 2(1) le1
        by (simp add: processQueue.psimps st1_def [symmetric])
    next
      case (Cons n rest)
      show ?thesis
      proof (cases "map_of (sessions st1) n")
        case None
        have "length (queue (snd (processQueue now (st1\<lparr>queue := rest\<rparr>)))) \<le> length rest"
          using 2(3) [OF st1_def Cons None] by simp
        then show ?thesis using 2(1) le1 Cons None
          by (simp add: processQueue.psimps st1_def [symmetric])
      next
        case (Some s)
        then show ?thesis using 2(1) le1 Cons
          by (simp add: processQueue.psimps st1_def [symmetric] activate_def)
      qed
    qed
  next
    case (3 now st)
    then show ?case by (simp add: cleanupExpiredSessions.psimps)
  next
    case (4 now st)
    then show ?case by (simp add: cleanup_loop.psimps)
  next
    case (5 now k ks st)
    show ?case
    proof (cases "map_of (sessions st) k")
      case None
      then show ?thesis using 5(1) 5(2) by (simp add: cleanup_loop.psimps)
    next
      case (Some s)
      show ?thesis
      proof (cases "status s = Waiting \<and> maxWaitTime < now - joinedAt s")
        case True
        from 5(3) [OF Some True] 5(4) [OF Some True] show ?thesis
          using 5(1) Some True by (auto simp: cleanup_loop.psimps)
      next
        case False
        from 5(5) [OF Some False] show ?thesis
          using 5(1) Some False by (auto simp: cleanup_loop.psimps)
      qed
    qed
  qed
  show ?thesis
  proof (relation "inv_image (less_than <*lex*> less_than <*lex*> less_than <*lex*> less_than)
       (\<lambda>x. case x of
          Inl (Inl (now, sid, pn, st)) \<Rightarrow>
            (if activeSession st = None then 0 else 1::nat, length (queue st), 0::nat, 0::nat)
        | Inl (Inr (now, st)) \<Rightarrow>
            (if activeSession st = None then 0 else 1, length (queue st), 3, 0)
        | Inr (Inl (now, st)) \<Rightarrow>
            (if activeSession st = None then 0 else 1, length (queue st), 2, 0)
        | Inr (Inr (now, ks, st)) \<Rightarrow>
            (if activeSession st = None then 0 else 1, length (queue st), 1, length ks))",
      goal_cases)
    case 1
    show ?case by (intro wf_inv_image wf_lex_prod wf_less_than)
  next
    case (2 now sessionId processNext st x xa)
    then show ?case by (simp add: drop_session_def)
  next
    case (3 now st)
    then show ?case by simp
  next
    case (4 now st x x21 x22)
    then show ?case using shrink(3) [of now st] by (auto split: if_splits)
  next
    case (5 now st)
    then show ?case by simp
  next
    case (6 now k ks st)
    then show ?case by simp
  next
    case (7 now k ks st x2)
    then show ?case by simp
  next
    case (8 now k ks st x2)
    then show ?case using shrink(1) [of now k True st] by (auto split: if_splits)
  next
    case (9 now k ks st x2)
    then show ?case by simp
  qed
qed

declare removeSession.simps [simp del] processQueue.simps [simp del]
  cleanupExpiredSessions.simps [simp del]


text \<open>
  What \<open>getQueueStatus\<close> and \<open>joinQueue\<close> return: the "Session not found"
  object, the queue-full object of \<open>joinQueue\<close>, and the active, waiting and
  unknown status objects with their fields.
\<close>

datatype queue_status =
    NotFound
  | QueueFull
  | ActiveStatus (position: int) (canProceed: bool) (timeRemaining: int)
  | WaitingStatus (position: int) (canProceed: bool) (estimatedWait: int)
  | UnknownStatus (canProceed: bool)

definition getQueueStatus :: "int \<Rightarrow> string \<Rightarrow> queue_manager \<Rightarrow> queue_status" where
  "getQueueStatus now sessionId st =
     (case map_of (sessions st) sessionId of
        None \<Rightarrow> NotFound
      | Some s \<Rightarrow>
          if activeSession st = Some sessionId
          then ActiveStatus 0 True
                 (max 0 (sessionTimeout -
                    (now - (case activatedAt s of
                              None \<Rightarrow> now
                            | Some t \<Rightarrow> if t = 0 then now else t))))
          else (let position = indexOf (queue st) sessionId + 1
                in if position > 0
                   then WaitingStatus position False (position * 60)
                   else UnknownStatus False))"

text \<open>The session object that \<open>joinQueue\<close> stores.\<close>

definition new_session :: "int \<Rightarrow> string \<Rightarrow> fileInfo \<Rightarrow> session" where
  "new_session now sessionId fi =
     \<lparr> session_id = sessionId, session_fileInfo = fi, joinedAt = now,
       status = Waiting, activatedAt = None \<rparr>"

definition joinQueue ::
  "int \<Rightarrow> string \<Rightarrow> fileInfo \<Rightarrow> queue_manager \<Rightarrow> queue_status \<times> queue_manager" where
  "joinQueue now sessionId fi st =
     (if map_of (sessions st) sessionId \<noteq> None
      then (getQueueStatus now sessionId st, st)
      else if length (queue st) \<ge> MAX_QUEUE_SIZE \<and> truthy (activeSession st)
      then (QueueFull, st)
      else
        (let s = new_session now sessionId fi;
             st1 = st\<lparr> sessions := AList.update sessionId s (sessions st) \<rparr>;
             st2 = (if \<not> truthy (activeSession st1)
                    then activate now sessionId s st1
                    else if sessionId \<notin> set (queue st1)
                    then st1\<lparr> queue := queue st1 @ [sessionId] \<rparr>
                    else st1)
         in (getQueueStatus now sessionId st2, st2)))"

text \<open>
  \<open>lastActivityTime.get(sessionId) || 0\<close>: a missing entry reads as 0. The
  \<open>setTimeout\<close> of the else branch is the new entry of \<open>timers\<close>.
\<close>

definition checkSessionTimeout :: "int \<Rightarrow> string \<Rightarrow> queue_manager \<Rightarrow> queue_manager" where
  "checkSessionTimeout now sessionId st =
     (if activeSession st \<noteq> Some sessionId then st
      else
        (let lastActivity = (case map_of (lastActivityTime st) sessionId of None \<Rightarrow> 0 | Some t \<Rightarrow> t);
             timeSinceActivity = now - lastActivity
         in if timeSinceActivity \<ge> sessionTimeout
            then removeSession now sessionId True st
            else st\<lparr> timers := timers st @
                     [(now + (sessionTimeout - timeSinceActivity), sessionId)] \<rparr>))"

definition updateActivity :: "int \<Rightarrow> string \<Rightarrow> queue_manager \<Rightarrow> queue_manager" where
  "updateActivity now sessionId st =
     (if activeSession st = Some sessionId
      then st\<lparr> lastActivityTime := AList.update sessionId now (lastActivityTime st) \<rparr>
      else st)"

definition completeSession :: "int \<Rightarrow> string \<Rightarrow> queue_manager \<Rightarrow> queue_manager" where
  "completeSession now sessionId st =
     removeSession now sessionId True (st\<lparr> completedSessions := Suc (completedSessions st) \<rparr>)"

definition canProceedToPayment :: "string \<Rightarrow> queue_manager \<Rightarrow> bool" where
  "canProceedToPayment sessionId st = (activeSession st = Some sessionId)"

text \<open>
  A sequence of operations on the queue: each is a method call at a time.
  \<open>RemoveSession\<close> is the call with the default \<open>processNext = true\<close>, the
  only form the server uses.
\<close>

datatype op =
    JoinQueue string fileInfo
  | ProcessQueue
  | UpdateActivity string
  | CompleteSession string
  | RemoveSession string
  | CheckSessionTimeout string
  | CleanupExpiredSessions

fun apply_op :: "int \<Rightarrow> op \<Rightarrow> queue_manager \<Rightarrow> queue_manager" where
  "apply_op now (JoinQueue sessionId fi) st = snd (joinQueue now sessionId fi st)"
| "apply_op now ProcessQueue st = snd (processQueue now st)"
| "apply_op now (UpdateActivity sessionId) st = updateActivity now sessionId st"
| "apply_op now (CompleteSession sessionId) st = completeSession now sessionId st"
| "apply_op now (RemoveSession sessionId) st = removeSession now sessionId True st"
| "apply_op now (CheckSessionTimeout sessionId) st = checkSessionTimeout now sessionId st"
| "apply_op now CleanupExpiredSessions st = cleanupExpiredSessions now st"

fun run :: "(int \<times> op) list \<Rightarrow> queue_manager \<Rightarrow> queue_manager" where
  "run [] st = st"
| "run ((now, c) # cs) st = run cs (apply_op now c st)"

text \<open>The number of sessions whose \<open>status\<close> field is \<open>'active'\<close>.\<close>

definition active_count :: "queue_manager \<Rightarrow> nat" where
  "active_count st = length (filter (\<lambda>(k, s). status s = Active) (sessions st))"


section \<open>Device bridge (coinListener.js, class CoinListener): line parsing\<close>

text \<open>
  What a property read \<open>this.coinValues[coinType]\<close> can produce: the number
  stored under an own key, a member inherited from \<open>Object.prototype\<close>
  (\<open>coinValues\<close> is an object literal, so a read of a key it does not own
  goes on to its prototype), or \<open>undefined\<close>.
\<close>

datatype propval = PUndefined | PNum int | PFunction string | PObject string

fun propval_truthy :: "propval \<Rightarrow> bool" where
  "propval_truthy PUndefined = False"
| "propval_truthy (PNum n) = (n \<noteq> 0)"
| "propval_truthy (PFunction f) = True"
| "propval_truthy (PObject ob) = True"

definition coinValues :: "(string \<times> int) list" where
  "coinValues = [(''1'', 1), (''5'', 5), (''10'', 10), (''20'', 20)]"

text \<open>The members every object literal inherits (ECMAScript, with Annex B).\<close>

definition Object_prototype :: "(string \<times> propval) list" where
  "Object_prototype =
     [(''constructor'', PFunction ''Object''),
      (''hasOwnProperty'', PFunction ''hasOwnProperty''),
      (''isPrototypeOf'', PFunction ''isPrototypeOf''),
      (''propertyIsEnumerable'', PFunction ''propertyIsEnumerable''),
      (''toLocaleString'', PFunction ''toLocaleString''),
      (''toString'', PFunction ''toString''),
      (''valueOf'', PFunction ''valueOf''),
      (''__defineGetter__'', PFunction ''__defineGetter__''),
      (''__defineSetter__'', PFunction ''__defineSetter__''),
      (''__lookupGetter__'', PFunction ''__lookupGetter__''),
      (''__lookupSetter__'', PFunction ''__lookupSetter__''),
      (''__proto__'', PObject ''Object.prototype'')]"

definition get_coinValue :: "string \<Rightarrow> propval" where
  "get_coinValue coinType =
     (case map_of coinValues coinType of
        Some n \<Rightarrow> PNum n
      | None \<Rightarrow> (case map_of Object_prototype coinType of
                   Some v \<Rightarrow> v
                 | None \<Rightarrow> PUndefined))"

text \<open>
  An observer is a callback run on the rest of the process (\<open>'w\<close>): it returns
  or throws, and in both cases leaves a world behind. \<open>notify\<close> is the
  \<open>forEach\<close> with its \<open>try/catch\<close>; it also counts the errors it logged.
\<close>

datatype 'w outcome = Returned 'w | Threw 'w

type_synonym 'w callback = "propval \<Rightarrow> string \<Rightarrow> 'w \<Rightarrow> 'w outcome"

fun notify :: "'w callback list \<Rightarrow> propval \<Rightarrow> string \<Rightarrow> 'w \<times> nat \<Rightarrow> 'w \<times> nat" where
  "notify [] coinValue coinType acc = acc"
| "notify (cb # cbs) coinValue coinType (w, errors) =
     (case cb coinValue coinType w of
        Returned w' \<Rightarrow> notify cbs coinValue coinType (w', errors)
      | Threw w' \<Rightarrow> notify cbs coinValue coinType (w', Suc errors))"

definition handleCoinDetection :: "'w callback list \<Rightarrow> string \<Rightarrow> 'w \<Rightarrow> 'w \<times> nat" where
  "handleCoinDetection coinCallbacks coinType w =
     (let coinValue = get_coinValue coinType
      in if propval_truthy coinValue
         then notify coinCallbacks coinValue coinType (w, 0)
         else (w, 0))"

text \<open>
  \<open>String.prototype.trim\<close> and \<open>startsWith\<close>. Lines are ASCII text here: \<open>trim\<close>
  strips the ASCII white space only, not the further Unicode spaces (U+00A0, U+FEFF,
  U+2028, ...) that JavaScript strips as well.
\<close>

definition is_space :: "char \<Rightarrow> bool" where
  "is_space c = (c \<in> set [CHR '' '', CHR 0x09, CHR 0x0A, CHR 0x0B, CHR 0x0C, CHR 0x0D])"

definition trim :: "string \<Rightarrow> string" where
  "trim s = rev (dropWhile is_space (rev (dropWhile is_space s)))"

definition startsWith :: "string \<Rightarrow> string \<Rightarrow> bool" where
  "startsWith s p = (take (length p) s = p)"

text \<open>
  \<open>handleArduinoData\<close>: only the \<open>COIN:\<close> branch does more than write to the
  console. The parser's \<open>data\<close> handler calls it with the trimmed line.
\<close>

definition handleArduinoData :: "'w callback list \<Rightarrow> string \<Rightarrow> 'w \<Rightarrow> 'w \<times> nat" where
  "handleArduinoData coinCallbacks data w =
     (if startsWith data ''COIN:''
      then handleCoinDetection coinCallbacks (trim (drop 5 data)) w
      else (w, 0))"

definition on_data :: "'w callback list \<Rightarrow> string \<Rightarrow> 'w \<Rightarrow> 'w \<times> nat" where
  "on_data coinCallbacks line w = handleArduinoData coinCallbacks (trim line) w"

text \<open>An observer that records its arguments, and one that records and throws.\<close>

definition recording :: "string \<Rightarrow> (string \<times> propval \<times> string) list callback" where
  "recording name coinValue coinType w = Returned (w @ [(name, coinValue, coinType)])"

definition throwing :: "string \<Rightarrow> (string \<times> propval \<times> string) list callback" where
  "throwing name coinValue coinType w = Threw (w @ [(name, coinValue, coinType)])"

section \<open>Coin claim ledger and payment gate (server.js)\<close>

text \<open>
  A field of a JSON request body. Numbers are integers here, printed in decimal
  by \<open>js_string\<close>, the conversion a template literal makes: that is what
  JavaScript prints for an integer of magnitude below 9007199254740992; fractions, and the
  rounding and exponent notation of larger doubles, are outside the model.
\<close>

datatype jsval = JUndefined | JNull | JBool bool | JNum int | JStr string

fun js_truthy :: "jsval \<Rightarrow> bool" where
  "js_truthy JUndefined = False"
| "js_truthy JNull = False"
| "js_truthy (JBool b) = b"
| "js_truthy (JNum n) = (n \<noteq> 0)"
| "js_truthy (JStr s) = (s \<noteq> [])"

fun string_of_nat :: "nat \<Rightarrow> string" where
  "string_of_nat n =
     (if n < 10 then [''0123456789'' ! n]
      else string_of_nat (n div 10) @ [''0123456789'' ! (n mod 10)])"

declare string_of_nat.simps [simp del]

definition string_of_int :: "int \<Rightarrow> string" where
  "string_of_int i =
     (if i < 0 then CHR ''-'' # string_of_nat (nat (- i)) else string_of_nat (nat i))"

fun js_string :: "jsval \<Rightarrow> string" where
  "js_string JUndefined = ''undefined''"
| "js_string JNull = ''null''"
| "js_string (JBool b) = (if b then ''true'' else ''false'')"
| "js_string (JNum n) = string_of_int n"
| "js_string (JStr s) = s"

record claimed_coin =
  cc_timestamp :: jsval
  cc_value :: jsval
  cc_sessionId :: jsval
  claimedAt :: int

text \<open>The \<open>claimedCoins\<close> map, in insertion order.\<close>

type_synonym ledger = "(string \<times> claimed_coin) list"

record claim_request =
  req_timestamp :: jsval
  req_value :: jsval
  req_sessionId :: jsval

datatype claim_response = MissingFields400 | CoinClaimed string

definition coinKey :: "jsval \<Rightarrow> jsval \<Rightarrow> string" where
  "coinKey t v = js_string t @ ''_'' @ js_string v"

text \<open>\<open>app.post('/api/claim-coin')\<close>.\<close>

definition claim_coin :: "int \<Rightarrow> claim_request \<Rightarrow> ledger \<Rightarrow> claim_response \<times> ledger" where
  "claim_coin now req claimedCoins =
     (if \<not> js_truthy (req_timestamp req) \<or> \<not> js_truthy (req_value req)
         \<or> \<not> js_truthy (req_sessionId req)
      then (MissingFields400, claimedCoins)
      else
        (let key = coinKey (req_timestamp req) (req_value req)
         in (CoinClaimed key,
             AList.update key
               \<lparr> cc_timestamp = req_timestamp req, cc_value = req_value req,
                 cc_sessionId = req_sessionId req, claimedAt = now \<rparr> claimedCoins)))"

text \<open>The lookup that \<open>app.get('/api/arduino-status')\<close> makes for a coin.\<close>

definition lookup_claim :: "jsval \<Rightarrow> jsval \<Rightarrow> ledger \<Rightarrow> claimed_coin option" where
  "lookup_claim t v claimedCoins = map_of claimedCoins (coinKey t v)"

text \<open>
  The body of the \<open>setInterval\<close> callback, which runs every 60000 ms: the loop
  over the entries deletes those claimed before \<open>now - 5 * 60 * 1000\<close>.
\<close>

definition sweep_period :: int where
  "sweep_period = 60000"

fun sweep_entries :: "int \<Rightarrow> (string \<times> claimed_coin) list \<Rightarrow> ledger \<Rightarrow> ledger" where
  "sweep_entries fiveMinutesAgo [] claimedCoins = claimedCoins"
| "sweep_entries fiveMinutesAgo ((key, coinData) # es) claimedCoins =
     (if claimedAt coinData < fiveMinutesAgo
      then sweep_entries fiveMinutesAgo es (AList.delete key claimedCoins)
      else sweep_entries fiveMinutesAgo es claimedCoins)"

definition sweep_claimed :: "int \<Rightarrow> ledger \<Rightarrow> ledger" where
  "sweep_claimed now claimedCoins =
     sweep_entries (now - 5 * 60 * 1000) claimedCoins claimedCoins"

text \<open>
  The timer itself: sweeps at \<open>due\<close>, \<open>due + 60000\<close>, ... up to the time
  \<open>until\<close>.
\<close>

function sweeps_until :: "int \<Rightarrow> int \<Rightarrow> ledger \<Rightarrow> ledger" where
  "sweeps_until due until claimedCoins =
     (if due \<le> until
      then sweeps_until (due + sweep_period) until (sweep_claimed due claimedCoins)
      else claimedCoins)"
  by pat_completeness auto
termination
  by (relation "measure (\<lambda>(due, until, c). nat (until - due + 1))")
     (auto simp: sweep_period_def)

declare sweeps_until.simps [simp del]

text \<open>
  \<open>app.post('/api/print')\<close>: the upload check, the admission gate, the
  printing pipeline, and the completion of the session. Multipart fields are
  strings, so \<open>sessionId\<close> is a string or absent. The pipeline (copying,
  conversion, \<open>printFile\<close>) is the parameter \<open>pipeline\<close>: it says whether the
  file was sent to the printer with success.
\<close>

record print_request =
  has_file :: bool
  pr_sessionId :: "string option"
  pr_fileName :: string

datatype print_response =
    NoFile400
  | NotYourTurn403 queue_status
  | Printed200
  | PrintError500

definition print_handler ::
  "(print_request \<Rightarrow> bool) \<Rightarrow> int \<Rightarrow> print_request \<Rightarrow> queue_manager
     \<Rightarrow> print_response \<times> queue_manager" where
  "print_handler pipeline now req st =
     (if \<not> has_file req then (NoFile400, st)
      else if truthy (pr_sessionId req) \<and> \<not> canProceedToPayment (the (pr_sessionId req)) st
      then (NotYourTurn403 (getQueueStatus now (the (pr_sessionId req)) st), st)
      else if pipeline req
      then (Printed200,
            if truthy (pr_sessionId req)
            then completeSession now (the (pr_sessionId req)) st
            else st)
      else (PrintError500, st))"


text \<open>
  The state the handlers of server.js share: the queue manager singleton, the
  \<open>claimedCoins\<close> map and \<open>global.lastCoinDetected\<close>.
\<close>

record coin_event =
  ce_value :: int
  ce_type :: string
  ce_timestamp :: int

record server_state =
  srv_queueManager :: queue_manager
  srv_claimedCoins :: ledger
  srv_lastCoinDetected :: "coin_event option"

definition post_claim_coin ::
  "int \<Rightarrow> claim_request \<Rightarrow> server_state \<Rightarrow> claim_response \<times> server_state" where
  "post_claim_coin now req srv =
     (let (response, claimedCoins) = claim_coin now req (srv_claimedCoins srv)
      in (response, srv\<lparr> srv_claimedCoins := claimedCoins \<rparr>))"

text \<open>
  The \<open>lastCoin\<close> of \<open>app.get('/api/arduino-status')\<close>: the last coin with
  the session id of its claim, if the ledger has one (\<open>isClaimed\<close>).
\<close>

definition arduino_status_lastCoin :: "server_state \<Rightarrow> (coin_event \<times> jsval option) option" where
  "arduino_status_lastCoin srv =
     (case srv_lastCoinDetected srv of
        None \<Rightarrow> None
      | Some lastCoin \<Rightarrow>
          (case lookup_claim (JNum (ce_timestamp lastCoin)) (JNum (ce_value lastCoin))
                  (srv_claimedCoins srv) of
             Some claimedCoin \<Rightarrow> Some (lastCoin, Some (cc_sessionId claimedCoin))
           | None \<Rightarrow> Some (lastCoin, None)))"

text \<open>Sample data for the concrete runs below.\<close>

definition a_pdf :: fileInfo where
  "a_pdf = \<lparr> fileName = ''a.pdf'', pageCount = 3, timestamp = 0 \<rparr>"

definition claim_by :: "string \<Rightarrow> claim_request" where
  "claim_by sessionId =
     \<lparr> req_timestamp = JNum 1000, req_value = JNum 10, req_sessionId = JStr sessionId \<rparr>"

text \<open>A server with no session at all, whose ledger binds the coin to S1.\<close>

definition srv_S1 :: server_state where
  "srv_S1 = \<lparr> srv_queueManager = new_QueueManager,
              srv_claimedCoins = snd (claim_coin 0 (claim_by ''S1'') []),
              srv_lastCoinDetected = None \<rparr>"


section \<open>Admission queue: invariants of the reachable states (definitions)\<close>

text \<open>
  What removals, sweeps and promotions do to the waiting line and the sessions: the
  queue becomes a subsequence of itself, no session appears, no join time changes,
  and no session goes back to waiting.
\<close>

definition shrinks :: "queue_manager \<Rightarrow> queue_manager \<Rightarrow> bool" where
  "shrinks st st' \<longleftrightarrow>
     subseq (queue st') (queue st) \<and>
     (\<forall>k s'. map_of (sessions st') k = Some s' \<longrightarrow>
        (\<exists>s. map_of (sessions st) k = Some s \<and> joinedAt s' = joinedAt s \<and>
             (status s' = Waiting \<longrightarrow> status s = Waiting)))"

text \<open>
  The shape of the queue manager that the operations keep: the sessions map has
  unique keys and no empty id, a session has status active exactly when the slot
  holds its id, every session is in the slot or in the queue, the slot names a
  session, and the queue has no duplicates and holds only sessions that are not
  active.
\<close>

definition inv_core :: "queue_manager \<Rightarrow> bool" where
  "inv_core st \<longleftrightarrow>
     distinct (map fst (sessions st)) \<and>
     map_of (sessions st) [] = None \<and>
     (\<forall>k s. map_of (sessions st) k = Some s \<longrightarrow>
        (status s = Active \<longleftrightarrow> activeSession st = Some k)) \<and>
     (\<forall>k s. map_of (sessions st) k = Some s \<longrightarrow>
        activeSession st = Some k \<or> k \<in> set (queue st)) \<and>
     (\<forall>k. activeSession st = Some k \<longrightarrow> map_of (sessions st) k \<noteq> None) \<and>
     distinct (queue st) \<and>
     (\<forall>k\<in>set (queue st). map_of (sessions st) k \<noteq> None \<and> activeSession st \<noteq> Some k)"

text \<open>
  The test of the sweep, \<open>session.status === 'waiting' && (now - session.joinedAt) >
  maxWaitTime\<close>, for the session of an id.
\<close>

definition stale :: "int \<Rightarrow> queue_manager \<Rightarrow> string \<Rightarrow> bool" where
  "stale now st k =
     (case map_of (sessions st) k of
        None \<Rightarrow> False
      | Some s \<Rightarrow> status s = Waiting \<and> now - joinedAt s > maxWaitTime)"

text \<open>
  Between operations, moreover, an empty slot means an empty queue, and the queue
  never exceeds \<open>MAX_QUEUE_SIZE\<close>.
\<close>

definition inv_top :: "queue_manager \<Rightarrow> bool" where
  "inv_top st \<longleftrightarrow>
     inv_core st \<and> (activeSession st = None \<longrightarrow> queue st = []) \<and>
     length (queue st) \<le> MAX_QUEUE_SIZE"

text \<open>
  The join time of a queued id.
\<close>

definition joinedAt_of :: "queue_manager \<Rightarrow> string \<Rightarrow> int" where
  "joinedAt_of st k = (case map_of (sessions st) k of None \<Rightarrow> 0 | Some s \<Rightarrow> joinedAt s)"

text \<open>
  No session joined after the clock \<open>t\<close>, and the queue is in the order of the
  join times.
\<close>

definition inv_time :: "int \<Rightarrow> queue_manager \<Rightarrow> bool" where
  "inv_time t st \<longleftrightarrow>
     (\<forall>k s. map_of (sessions st) k = Some s \<longrightarrow> joinedAt s \<le> t) \<and>
     sorted_wrt (\<lambda>a b. joinedAt_of st a \<le> joinedAt_of st b) (queue st)"

text \<open>
  The calls the server can make: \<open>/api/queue/join\<close> rejects an empty session id,
  and \<open>processQueue\<close> is called only by \<open>removeSession\<close>; on its own it is
  considered only when the slot is free.
\<close>

fun op_ok :: "queue_manager \<Rightarrow> op \<Rightarrow> bool" where
  "op_ok st (JoinQueue sessionId fi) = (sessionId \<noteq> [])"
| "op_ok st ProcessQueue = (activeSession st = None)"
| "op_ok st c = True"

text \<open>
  A sequence of such calls from a state.
\<close>

fun admissible :: "queue_manager \<Rightarrow> (int \<times> op) list \<Rightarrow> bool" where
  "admissible st [] = True"
| "admissible st ((now, c) # cs) = (op_ok st c \<and> admissible (apply_op now c st) cs)"

text \<open>
  The clock does not go back along a sequence of calls.
\<close>

fun clock_ok :: "int \<Rightarrow> (int \<times> op) list \<Rightarrow> bool" where
  "clock_ok t [] = True"
| "clock_ok t ((now, c) # cs) = (t \<le> now \<and> clock_ok now cs)"

text \<open>
  The time of the last call of a sequence.
\<close>

definition clock_end :: "int \<Rightarrow> (int \<times> op) list \<Rightarrow> int" where
  "clock_end t ops = (if ops = [] then t else fst (last ops))"

text \<open>
  \<open>a\<close> stands ahead of \<open>b\<close> in a list: \<open>b\<close> occurs after the first \<open>a\<close>.
\<close>

definition ahead :: "'a \<Rightarrow> 'a \<Rightarrow> 'a list \<Rightarrow> bool" where
  "ahead a b xs = (b \<in> set (drop 1 (dropWhile (\<lambda>x. x \<noteq> a) xs)))"

text \<open>
  Sample runs. Two sessions join, the first completes, a third joins, and the timeout
  check of the second fires.
\<close>

definition ops_demo :: "(int \<times> op) list" where
  "ops_demo = [(1000, JoinQueue ''a'' a_pdf), (2000, JoinQueue ''b'' a_pdf),
               (3000, CompleteSession ''a''), (4000, JoinQueue ''c'' a_pdf),
               (95000, CheckSessionTimeout ''b'')]"

text \<open>
  Eleven sessions join: s0 is active and s1 ... s10 wait.
\<close>

definition ops_full :: "(int \<times> op) list" where
  "ops_full = map (\<lambda>i. (1000 + int i, JoinQueue (''s'' @ string_of_nat i) a_pdf)) [0..<11]"

text \<open>
  The waiting line as the sweep leaves it: the queued ids that are not stale.
\<close>

definition live :: "int \<Rightarrow> queue_manager \<Rightarrow> string list" where
  "live now st = filter (\<lambda>k. \<not> stale now st k) (queue st)"

text \<open>
  The active session sends a heartbeat every 60 s, and every timeout check armed so
  far fires when it is due: \<open>n\<close> rounds for a session whose last activity was at
  \<open>t\<close> (the timer then pending being due at \<open>t + 90000\<close>).
\<close>

fun keep_alive :: "string \<Rightarrow> int \<Rightarrow> nat \<Rightarrow> (int \<times> op) list" where
  "keep_alive sessionId t 0 = []"
| "keep_alive sessionId t (Suc n) =
     (t + 60000, UpdateActivity sessionId) # (t + 90000, CheckSessionTimeout sessionId) #
     keep_alive sessionId (t + 60000) n"

text \<open>
  x is active and a waits, while x sends heartbeats for nine minutes.
\<close>

definition ops_stall :: "(int \<times> op) list" where
  "ops_stall = [(1000, JoinQueue ''x'' a_pdf), (2000, JoinQueue ''a'' a_pdf)] @
               keep_alive ''x'' 1000 9"

text \<open>
  The same for twenty minutes.
\<close>

definition ops_idle :: "(int \<times> op) list" where
  "ops_idle = [(1000, JoinQueue ''x'' a_pdf), (2000, JoinQueue ''a'' a_pdf)] @
              keep_alive ''x'' 1000 20"

text \<open>
  x is active and a waits.
\<close>

definition ops_two :: "(int \<times> op) list" where
  "ops_two = [(1000, JoinQueue ''x'' a_pdf), (2000, JoinQueue ''a'' a_pdf)]"

text \<open>
  x is active and sends heartbeats, a joins at 2000 and b at 520000.
\<close>

definition ops_overtake :: "(int \<times> op) list" where
  "ops_overtake = [(1000, JoinQueue ''x'' a_pdf), (2000, JoinQueue ''a'' a_pdf)] @
                  keep_alive ''x'' 1000 8 @ [(520000, JoinQueue ''b'' a_pdf)] @
                  keep_alive ''x'' 481000 2"

section \<open>Device bridge: delivery of coin events\<close>

lemma notify_append:
  "notify (xs @ ys) v t acc = notify ys v t (notify xs v t acc)"
proof (induction xs arbitrary: acc)
  case Nil
  show ?case by simp
next
  case (Cons cb xs)
  obtain w e where acc: "acc = (w, e)" by (cases acc)
  show ?case unfolding acc by (cases "cb v t w") (simp_all add: Cons.IH)
qed


lemma known_coin_notifies_all:
  "map_of coinValues coinType = Some n \<Longrightarrow>
   handleCoinDetection cbs coinType w = notify cbs (PNum n) coinType (w, 0)"
  by (auto simp: handleCoinDetection_def get_coinValue_def coinValues_def split: if_splits)

lemma unknown_own_and_inherited_ignored:
  "map_of coinValues coinType = None \<Longrightarrow> map_of Object_prototype coinType = None \<Longrightarrow>
   handleCoinDetection cbs coinType w = (w, 0)"
  by (simp add: handleCoinDetection_def get_coinValue_def)

text \<open>
  C6. The claim: a line \<open>COIN:<type>\<close> with a type outside the denomination
  table invokes no observer and raises no error; a known type reaches every
  observer in registration order, a throwing observer not stopping the rest.
  The table is read with \<open>this.coinValues[coinType]\<close>, and for a type that
  names a member of \<open>Object.prototype\<close> the read yields that member, which
  is truthy: on the line \<open>COIN:toString\<close> both observers are invoked, with
  the function \<open>toString\<close> as the value.
\<close>

theorem coin_line_toString_reaches_observers:
  "on_data [recording ''first'', recording ''second''] ''COIN:toString'' [] =
     ([(''first'', PFunction ''toString'', ''toString''),
       (''second'', PFunction ''toString'', ''toString'')], 0)"
  by code_simp

lemma coin_line_10_reaches_every_observer:
  "on_data [recording ''first'', throwing ''second'', recording ''third''] ''COIN:10'' [] =
     ([(''first'', PNum 10, ''10''), (''second'', PNum 10, ''10''),
       (''third'', PNum 10, ''10'')], 1)"
  by code_simp

lemma coin_line_99_is_ignored:
  "on_data [recording ''first'', throwing ''second'', recording ''third''] ''COIN:99'' [] = ([], 0)"
  by code_simp

section \<open>Admission queue: the status of the active session\<close>

lemma getQueueStatus_active:
  "map_of (sessions st) sessionId = Some s \<Longrightarrow> activeSession st = Some sessionId \<Longrightarrow>
   activatedAt s = Some t \<Longrightarrow> t \<noteq> 0 \<Longrightarrow>
   getQueueStatus now sessionId st = ActiveStatus 0 True (max 0 (sessionTimeout - (now - t)))"
  by (simp add: getQueueStatus_def)

text \<open>
  C5. The claim: for the active session \<open>getQueueStatus\<close> returns status
  active, position 0, \<open>canProceed\<close> true and a \<open>timeRemaining\<close> equal to the
  window of 90 s minus the time since the last heartbeat. The code computes
  \<open>timeRemaining\<close> from \<open>activatedAt\<close>, which a heartbeat does not touch,
  while \<open>checkSessionTimeout\<close> counts from \<open>lastActivityTime\<close>: session s1
  joins at 1000 and sends a heartbeat at 61000; the status at 61000 reports
  30000 ms left, and the timeout check at 91000 does not remove the session
  but re-arms itself for 151000, 90 s after the heartbeat.
\<close>

theorem timeRemaining_ignores_heartbeat:
  "(let st = run [(1000, JoinQueue ''s1'' a_pdf), (61000, UpdateActivity ''s1'')]
               new_QueueManager
    in getQueueStatus 61000 ''s1'' st = ActiveStatus 0 True 30000 \<and>
       map_of (lastActivityTime st) ''s1'' = Some 61000 \<and>
       checkSessionTimeout 91000 ''s1'' st = st\<lparr> timers := timers st @ [(151000, ''s1'')] \<rparr>)"
  by code_simp

section \<open>Coin claim ledger\<close>

lemma sweep_entries_map_of:
  "map_of (sweep_entries c es m) k =
     (if \<exists>d. (k, d) \<in> set es \<and> claimedAt d < c then None else map_of m k)"
proof (induction es arbitrary: m)
  case Nil
  show ?case by simp
next
  case (Cons e es)
  obtain k' d' where e: "e = (k', d')" by (cases e)
  show ?case unfolding e
    by (auto simp: Cons.IH delete_conv)
qed

lemma sweep_claimed_map_of:
  assumes "distinct (map fst m)"
  shows "map_of (sweep_claimed now m) k =
     (case map_of m k of
        None \<Rightarrow> None
      | Some d \<Rightarrow> if claimedAt d < now - 300000 then None else Some d)"
proof (cases "map_of m k")
  case None
  then show ?thesis
    by (auto simp: sweep_claimed_def sweep_entries_map_of)
next
  case (Some d)
  have "\<And>d'. (k, d') \<in> set m \<longleftrightarrow> d' = d"
    using assms Some by (metis map_of_eq_Some_iff option.inject)
  then show ?thesis using Some
    by (auto simp: sweep_claimed_def sweep_entries_map_of)
qed

lemma sweep_entries_distinct:
  "distinct (map fst m) \<Longrightarrow> distinct (map fst (sweep_entries c es m))"
  by (induction es arbitrary: m) (auto simp: distinct_delete)

lemma sweep_claimed_distinct:
  "distinct (map fst m) \<Longrightarrow> distinct (map fst (sweep_claimed now m))"
  by (simp add: sweep_claimed_def sweep_entries_distinct)

lemma sweeps_until_None:
  "distinct (map fst m) \<Longrightarrow> map_of m k = None \<Longrightarrow> map_of (sweeps_until due until m) k = None"
proof (induction due until m rule: sweeps_until.induct)
  case (1 due until m)
  show ?case
  proof (cases "due \<le> until")
    case True
    have "map_of (sweep_claimed due m) k = None"
      using 1(2,3) by (simp add: sweep_claimed_map_of)
    with 1(1) [OF True sweep_claimed_distinct [OF 1(2)]] True show ?thesis
      by (subst sweeps_until.simps) simp
  next
    case False
    then show ?thesis using 1(3) by (subst sweeps_until.simps) simp
  qed
qed

lemma sweeps_until_expired:
  "distinct (map fst m) \<Longrightarrow> map_of m k = Some d \<Longrightarrow>
   due \<le> claimedAt d + 300000 + sweep_period \<Longrightarrow> claimedAt d + 300000 + sweep_period \<le> until \<Longrightarrow>
   map_of (sweeps_until due until m) k = None"
proof (induction due until m rule: sweeps_until.induct)
  case (1 due until m)
  have le: "due \<le> until" using 1(4,5) by simp
  have dist': "distinct (map fst (sweep_claimed due m))"
    by (rule sweep_claimed_distinct [OF 1(2)])
  show ?case
  proof (cases "claimedAt d < due - 300000")
    case True
    have "map_of (sweep_claimed due m) k = None"
      using 1(2,3) True by (simp add: sweep_claimed_map_of)
    then have "map_of (sweeps_until (due + sweep_period) until (sweep_claimed due m)) k = None"
      by (rule sweeps_until_None [OF dist'])
    then show ?thesis using le by (subst sweeps_until.simps) simp
  next
    case False
    have kept: "map_of (sweep_claimed due m) k = Some d"
      using 1(2,3) False by (simp add: sweep_claimed_map_of)
    have "due + sweep_period \<le> claimedAt d + 300000 + sweep_period" using False by simp
    from 1(1) [OF le dist' kept this 1(5)] show ?thesis
      using le by (subst sweeps_until.simps) simp
  qed
qed

lemma sweeps_until_fresh:
  "distinct (map fst m) \<Longrightarrow> map_of m k = Some d \<Longrightarrow> until \<le> claimedAt d + 300000 \<Longrightarrow>
   map_of (sweeps_until due until m) k = Some d"
proof (induction due until m rule: sweeps_until.induct)
  case (1 due until m)
  show ?case
  proof (cases "due \<le> until")
    case True
    have kept: "map_of (sweep_claimed due m) k = Some d"
      using 1(2,3,4) True by (simp add: sweep_claimed_map_of)
    from 1(1) [OF True sweep_claimed_distinct [OF 1(2)] kept 1(4)] show ?thesis
      using True by (subst sweeps_until.simps) simp
  next
    case False
    then show ?thesis using 1(3) by (subst sweeps_until.simps) simp
  qed
qed


lemma claim_coin_ok:
  "js_truthy t \<Longrightarrow> js_truthy v \<Longrightarrow> js_truthy sid \<Longrightarrow>
   claim_coin now \<lparr> req_timestamp = t, req_value = v, req_sessionId = sid \<rparr> m =
     (CoinClaimed (coinKey t v),
      AList.update (coinKey t v)
        \<lparr> cc_timestamp = t, cc_value = v, cc_sessionId = sid, claimedAt = now \<rparr> m)"
  by (simp add: claim_coin_def Let_def)

lemma lookup_update:
  "lookup_claim t v (AList.update (coinKey t v) e m) = Some e"
  by (simp add: lookup_claim_def update_conv)

text \<open>
  C7 as stated fails: the lookup has no age check, so an entry outlives its
  five minutes until a sweep finds it. Claimed at time 0, with the sweeps of
  60000, 120000, ..., 300000 done, the entry is still returned at 330000.
\<close>

theorem claim_still_returned_after_ttl:
  "map_option cc_sessionId
     (lookup_claim (JNum 1000) (JNum 10)
        (sweeps_until 60000 330000 (snd (claim_coin 0 (claim_by ''S1'') []))))
   = Some (JStr ''S1'')"
  by code_simp

text \<open>
  C7, amended. A claim followed by a lookup of the same (timestamp, value)
  returns the claiming session, and a second claim of the key replaces the
  first. A sweep that runs more than five minutes after the claim deletes the
  entry, a sweep that runs earlier keeps it, and the lookup itself never
  expires anything: with a sweep every 60 s the lookup returns absent from six
  minutes after the claim on, and still returns the entry up to five minutes
  after it.
\<close>

theorem claim_lookup_sweep:
  assumes "distinct (map fst m)" and "js_truthy t" and "js_truthy v" and "js_truthy sid"
  shows
    "(let e = \<lparr> cc_timestamp = t, cc_value = v, cc_sessionId = sid, claimedAt = c \<rparr>;
          m1 = snd (claim_coin c \<lparr> req_timestamp = t, req_value = v, req_sessionId = sid \<rparr> m)
      in lookup_claim t v m1 = Some e \<and>
         (js_truthy sid2 \<longrightarrow>
            lookup_claim t v
              (snd (claim_coin c2 \<lparr> req_timestamp = t, req_value = v, req_sessionId = sid2 \<rparr> m1))
            = Some \<lparr> cc_timestamp = t, cc_value = v, cc_sessionId = sid2, claimedAt = c2 \<rparr>) \<and>
         (c + 300000 < now \<longrightarrow> lookup_claim t v (sweep_claimed now m1) = None) \<and>
         (now \<le> c + 300000 \<longrightarrow> lookup_claim t v (sweep_claimed now m1) = Some e) \<and>
         (due \<le> c + 360000 \<and> c + 360000 \<le> until \<longrightarrow>
            lookup_claim t v (sweeps_until due until m1) = None) \<and>
         (until \<le> c + 300000 \<longrightarrow> lookup_claim t v (sweeps_until due until m1) = Some e))"
proof -
  define e where "e = \<lparr> cc_timestamp = t, cc_value = v, cc_sessionId = sid, claimedAt = c \<rparr>"
  define m1 where "m1 = AList.update (coinKey t v) e m"
  have m1: "snd (claim_coin c \<lparr> req_timestamp = t, req_value = v, req_sessionId = sid \<rparr> m) = m1"
    using assms(2-4) by (simp add: claim_coin_ok m1_def e_def)
  have d1: "distinct (map fst m1)"
    using assms(1) by (simp add: m1_def distinct_update)
  have l1: "map_of m1 (coinKey t v) = Some e"
    by (simp add: m1_def update_conv)
  have at: "claimedAt e = c" by (simp add: e_def)
  have 1: "lookup_claim t v m1 = Some e"
    by (simp add: m1_def lookup_update)
  have 2: "js_truthy sid2 \<longrightarrow>
            lookup_claim t v
              (snd (claim_coin c2 \<lparr> req_timestamp = t, req_value = v, req_sessionId = sid2 \<rparr> m1))
            = Some \<lparr> cc_timestamp = t, cc_value = v, cc_sessionId = sid2, claimedAt = c2 \<rparr>"
    using assms(2,3) by (simp add: claim_coin_ok lookup_update)
  have 3: "c + 300000 < now \<longrightarrow> lookup_claim t v (sweep_claimed now m1) = None"
    using l1 at by (simp add: lookup_claim_def sweep_claimed_map_of [OF d1])
  have 4: "now \<le> c + 300000 \<longrightarrow> lookup_claim t v (sweep_claimed now m1) = Some e"
    using l1 at by (simp add: lookup_claim_def sweep_claimed_map_of [OF d1])
  have 5: "due \<le> c + 360000 \<and> c + 360000 \<le> until \<longrightarrow>
            lookup_claim t v (sweeps_until due until m1) = None"
    using sweeps_until_expired [OF d1 l1, of due until] at
    by (simp add: lookup_claim_def sweep_period_def)
  have 6: "until \<le> c + 300000 \<longrightarrow> lookup_claim t v (sweeps_until due until m1) = Some e"
    using sweeps_until_fresh [OF d1 l1, of until due] at
    by (simp add: lookup_claim_def)
  show ?thesis
    unfolding Let_def m1 e_def [symmetric] using 1 2 3 4 5 6 by blast
qed

theorem claim_lookup_sweep_witness:
  "lookup_claim (JNum 1000) (JNum 10) (snd (claim_coin 0 (claim_by ''S1'') [])) =
     Some \<lparr> cc_timestamp = JNum 1000, cc_value = JNum 10, cc_sessionId = JStr ''S1'',
            claimedAt = 0 \<rparr> \<and>
   lookup_claim (JNum 1000) (JNum 10)
     (sweeps_until 60000 360000 (snd (claim_coin 0 (claim_by ''S1'') []))) = None"
  using claim_lookup_sweep [of "[]" "JNum 1000" "JNum 10" "JStr ''S1''" 0 "JStr ''S2''" 1
          300001 60000 360000]
  by (simp add: claim_by_def Let_def)

text \<open>
  C10. A claim whose three fields are truthy is stored under the key of
  (timestamp, value) and reported as a success, whatever the queue, the last
  coin event and the ledger hold: the handler reads none of them, so the
  session need not exist or be active, no coin event need match, and a key
  bound to another session is bound anew.
\<close>

theorem claim_coin_unconditional:
  assumes "js_truthy t" and "js_truthy v" and "js_truthy sid"
  shows
    "post_claim_coin now \<lparr> req_timestamp = t, req_value = v, req_sessionId = sid \<rparr> srv =
       (CoinClaimed (coinKey t v),
        srv\<lparr> srv_claimedCoins :=
               AList.update (coinKey t v)
                 \<lparr> cc_timestamp = t, cc_value = v, cc_sessionId = sid, claimedAt = now \<rparr>
                 (srv_claimedCoins srv) \<rparr>) \<and>
     map_option cc_sessionId
       (lookup_claim t v
          (srv_claimedCoins
             (snd (post_claim_coin now
                     \<lparr> req_timestamp = t, req_value = v, req_sessionId = sid \<rparr> srv))))
       = Some sid"
  using assms by (simp add: post_claim_coin_def claim_coin_ok lookup_update)

theorem claim_coin_unconditional_witness:
  "sessions (srv_queueManager srv_S1) = [] \<and>
   map_option cc_sessionId (lookup_claim (JNum 1000) (JNum 10) (srv_claimedCoins srv_S1))
     = Some (JStr ''S1'') \<and>
   fst (post_claim_coin 5 (claim_by ''ghost'') srv_S1) = CoinClaimed ''1000_10'' \<and>
   map_option cc_sessionId
     (lookup_claim (JNum 1000) (JNum 10)
        (srv_claimedCoins (snd (post_claim_coin 5 (claim_by ''ghost'') srv_S1))))
     = Some (JStr ''ghost'')"
proof -
  have t: "js_truthy (JNum 1000)" "js_truthy (JNum 10)" "js_truthy (JStr ''ghost'')"
    by simp_all
  have r: "claim_by ''ghost'' =
             \<lparr> req_timestamp = JNum 1000, req_value = JNum 10, req_sessionId = JStr ''ghost'' \<rparr>"
    by (simp add: claim_by_def)
  have key: "coinKey (JNum 1000) (JNum 10) = ''1000_10''" by code_simp
  have 0: "sessions (srv_queueManager srv_S1) = []"
    by (simp add: srv_S1_def new_QueueManager_def)
  have 1: "map_option cc_sessionId
             (lookup_claim (JNum 1000) (JNum 10) (srv_claimedCoins srv_S1)) = Some (JStr ''S1'')"
    by code_simp
  note T = claim_coin_unconditional [OF t, of 5 srv_S1, folded r]
  have 2: "fst (post_claim_coin 5 (claim_by ''ghost'') srv_S1) = CoinClaimed ''1000_10''"
    using conjunct1 [OF T] key by simp
  show ?thesis using 0 1 2 conjunct2 [OF T] by blast
qed

section \<open>Payment gate of the print request\<close>

text \<open>
  C9. A print request that carries a file and no \<open>sessionId\<close> field goes to
  the printing pipeline whatever the queue holds: the answer is the
  pipeline's, the queue is left as it was, and the 403 of the admission gate
  is given only to a request that supplies a session id.
\<close>

theorem print_without_sessionId_skips_gate:
  "(has_file req \<and> pr_sessionId req = None \<longrightarrow>
      print_handler pipeline now req st =
        (if pipeline req then Printed200 else PrintError500, st)) \<and>
   (fst (print_handler pipeline now req st) = NotYourTurn403 q \<longrightarrow>
      pr_sessionId req \<noteq> None \<and> \<not> canProceedToPayment (the (pr_sessionId req)) st)"
  by (auto simp: print_handler_def truthy_def split: if_splits option.splits)

theorem print_without_sessionId_skips_gate_witness:
  "(let st = run [(1000, JoinQueue ''s1'' a_pdf)] new_QueueManager;
        req = \<lparr> has_file = True, pr_sessionId = None, pr_fileName = ''b.pdf'' \<rparr>
    in activeSession st = Some ''s1'' \<and>
       print_handler (\<lambda>r. True) 2000 req st = (Printed200, st) \<and>
       fst (print_handler (\<lambda>r. True) 2000 (req\<lparr> pr_sessionId := Some ''s2'' \<rparr>) st)
         = NotYourTurn403 NotFound)"
proof -
  define st where "st = run [(1000, JoinQueue ''s1'' a_pdf)] new_QueueManager"
  define req where "req = \<lparr> has_file = True, pr_sessionId = None, pr_fileName = ''b.pdf'' \<rparr>"
  have a: "activeSession st = Some ''s1''" unfolding st_def by code_simp
  have b: "fst (print_handler (\<lambda>r. True) 2000 (req\<lparr> pr_sessionId := Some ''s2'' \<rparr>) st)
             = NotYourTurn403 NotFound"
    unfolding st_def req_def by code_simp
  have c: "print_handler (\<lambda>r. True) 2000 req st = (Printed200, st)"
    using print_without_sessionId_skips_gate [of req "\<lambda>r. True" 2000 st NotFound]
    by (simp add: req_def)
  show ?thesis
    unfolding Let_def st_def [symmetric] req_def [symmetric] using a b c by simp
qed

section \<open>Admission queue: what the operations keep\<close>

lemma shrinks_refl: "shrinks st st"
  by (simp add: shrinks_def)

lemma shrinks_trans:
  assumes "shrinks a b" and "shrinks b c"
  shows "shrinks a c"
proof -
  have "subseq (queue c) (queue a)"
    using assms by (auto simp: shrinks_def intro: subseq_order.order_trans)
  moreover have "\<exists>s. map_of (sessions a) k = Some s \<and> joinedAt s' = joinedAt s \<and>
             (status s' = Waiting \<longrightarrow> status s = Waiting)"
    if c: "map_of (sessions c) k = Some s'" for k s'
  proof -
    from assms(2) c obtain sb where sb: "map_of (sessions b) k = Some sb"
      "joinedAt s' = joinedAt sb" "status s' = Waiting \<longrightarrow> status sb = Waiting"
      unfolding shrinks_def by blast
    from assms(1) sb(1) obtain sa where "map_of (sessions a) k = Some sa"
      "joinedAt sb = joinedAt sa" "status sb = Waiting \<longrightarrow> status sa = Waiting"
      unfolding shrinks_def by blast
    with sb show ?thesis by simp
  qed
  ultimately show ?thesis unfolding shrinks_def by blast
qed

lemma subseq_remove1: "subseq (remove1 x xs) xs"
  by (induction xs) auto

lemma shrinks_drop_session: "shrinks st (drop_session sid st)"
  by (auto simp: shrinks_def drop_session_def subseq_remove1 delete_conv split: if_splits)

lemma shrinks_queue_tl: "queue st = n # rest \<Longrightarrow> shrinks st (st\<lparr> queue := rest \<rparr>)"
  by (auto simp: shrinks_def)

lemma shrinks_active_None: "shrinks st (st\<lparr> activeSession := None \<rparr>)"
  by (simp add: shrinks_def)

lemma shrinks_activate:
  "map_of (sessions st) n = Some s \<Longrightarrow> shrinks st (activate now n s st)"
  by (auto simp: shrinks_def activate_def update_conv)

lemma frame:
  "shrinks st (removeSession now sid pn st) \<and>
     (activeSession st = None \<longrightarrow> activeSession (removeSession now sid pn st) = None)"
  "shrinks st1 (snd (processQueue now1 st1))"
  "shrinks st2 (cleanupExpiredSessions now2 st2) \<and>
     (activeSession st2 = None \<longrightarrow> activeSession (cleanupExpiredSessions now2 st2) = None)"
  "shrinks st3 (cleanup_loop now3 ks st3) \<and>
     (activeSession st3 = None \<longrightarrow> activeSession (cleanup_loop now3 ks st3) = None)"
proof (induct now sid pn st and now1 st1 and now2 st2 and now3 ks st3
       rule: removeSession_processQueue_cleanupExpiredSessions_cleanup_loop.induct)
  case (1 now sessionId processNext st)
  show ?case
  proof (cases "activeSession st = Some sessionId \<and> processNext")
    case True
    have "shrinks (drop_session sessionId st) (snd (processQueue now (drop_session sessionId st)))"
      using 1 True by simp
    with shrinks_drop_session have "shrinks st (snd (processQueue now (drop_session sessionId st)))"
      by (rule shrinks_trans)
    then show ?thesis using True by (simp add: removeSession.simps)
  next
    case False
    have "activeSession st = None \<longrightarrow> activeSession (drop_session sessionId st) = None"
      by (simp add: drop_session_def)
    then show ?thesis using False shrinks_drop_session [of st sessionId]
      by (auto simp: removeSession.simps)
  qed
next
  case (2 now st)
  define st1 where "st1 = cleanupExpiredSessions now st"
  have s1: "shrinks st st1" using 2(1) by (simp add: st1_def)
  show ?case
  proof (cases "queue st1")
    case Nil
    have "shrinks st (st1\<lparr> activeSession := None \<rparr>)"
      using s1 shrinks_active_None by (rule shrinks_trans)
    then show ?thesis using Nil
      by (simp add: processQueue.simps [of now st] st1_def [symmetric])
  next
    case (Cons n rest)
    have s2: "shrinks st (st1\<lparr> queue := rest \<rparr>)"
      using s1 shrinks_queue_tl [OF Cons] by (rule shrinks_trans)
    show ?thesis
    proof (cases "map_of (sessions st1) n")
      case None
      have "shrinks (st1\<lparr> queue := rest \<rparr>) (snd (processQueue now (st1\<lparr>queue := rest\<rparr>)))"
        using 2(2) [OF st1_def Cons None] .
      with s2 have "shrinks st (snd (processQueue now (st1\<lparr>queue := rest\<rparr>)))"
        by (rule shrinks_trans)
      then show ?thesis using Cons None
        by (simp add: processQueue.simps [of now st] st1_def [symmetric])
    next
      case (Some s)
      have "shrinks (st1\<lparr> queue := rest \<rparr>) (activate now n s (st1\<lparr> queue := rest \<rparr>))"
        by (rule shrinks_activate) (simp add: Some)
      with s2 have "shrinks st (activate now n s (st1\<lparr> queue := rest \<rparr>))"
        by (rule shrinks_trans)
      then show ?thesis using Cons Some
        by (simp add: processQueue.simps [of now st] st1_def [symmetric])
    qed
  qed
next
  case (3 now st)
  then show ?case by (simp add: cleanupExpiredSessions.simps)
next
  case (4 now st)
  then show ?case by (simp add: shrinks_refl)
next
  case (5 now k ks st)
  show ?case
  proof (cases "map_of (sessions st) k")
    case None
    then show ?thesis using 5(1) by simp
  next
    case (Some s)
    show ?thesis
    proof (cases "status s = Waiting \<and> maxWaitTime < now - joinedAt s")
      case True
      from 5(2) [OF Some True] 5(3) [OF Some True] show ?thesis
        using Some True by (auto intro: shrinks_trans)
    next
      case False
      from 5(4) [OF Some False] show ?thesis
        using Some False by auto
    qed
  qed
qed


lemma inv_core_new: "inv_core new_QueueManager"
  by (simp add: inv_core_def new_QueueManager_def)

lemma inv_coreD:
  assumes "inv_core st"
  shows "distinct (map fst (sessions st))"
    and "map_of (sessions st) [] = None"
    and "map_of (sessions st) k = Some s \<Longrightarrow> (status s = Active) = (activeSession st = Some k)"
    and "map_of (sessions st) k = Some s \<Longrightarrow> activeSession st = Some k \<or> k \<in> set (queue st)"
    and "activeSession st = Some k \<Longrightarrow> \<exists>s. map_of (sessions st) k = Some s"
    and "distinct (queue st)"
    and "k \<in> set (queue st) \<Longrightarrow> \<exists>s. map_of (sessions st) k = Some s"
    and "k \<in> set (queue st) \<Longrightarrow> activeSession st \<noteq> Some k"
  using assms unfolding inv_core_def by blast+

lemma inv_coreI:
  assumes "distinct (map fst (sessions st))"
    and "map_of (sessions st) [] = None"
    and "\<And>k s. map_of (sessions st) k = Some s \<Longrightarrow> (status s = Active) = (activeSession st = Some k)"
    and "\<And>k s. map_of (sessions st) k = Some s \<Longrightarrow> activeSession st = Some k \<or> k \<in> set (queue st)"
    and "\<And>k. activeSession st = Some k \<Longrightarrow> \<exists>s. map_of (sessions st) k = Some s"
    and "distinct (queue st)"
    and "\<And>k. k \<in> set (queue st) \<Longrightarrow> \<exists>s. map_of (sessions st) k = Some s"
    and "\<And>k. k \<in> set (queue st) \<Longrightarrow> activeSession st \<noteq> Some k"
  shows "inv_core st"
  unfolding inv_core_def using assms by blast

lemma inv_core_drop_session:
  assumes "inv_core st"
  shows "inv_core (drop_session sid st)"
proof -
  note D = inv_coreD [OF assms]
  define st' where "st' = drop_session sid st"
  have q: "set (queue st') = set (queue st) - {sid}"
    using D(6) by (simp add: st'_def drop_session_def)
  have m: "map_of (sessions st') k = (if k = sid then None else map_of (sessions st) k)" for k
    by (simp add: st'_def drop_session_def delete_conv)
  have a: "activeSession st' = Some k \<longleftrightarrow> k \<noteq> sid \<and> activeSession st = Some k" for k
    by (auto simp: st'_def drop_session_def)
  have old: "k \<noteq> sid \<and> map_of (sessions st) k = Some s"
    if "map_of (sessions st') k = Some s" for k s
    using that by (cases "k = sid") (simp_all add: m)
  have "inv_core st'"
  proof (rule inv_coreI)
    show "distinct (map fst (sessions st'))"
      using D(1) by (simp add: st'_def drop_session_def distinct_delete)
    show "map_of (sessions st') [] = None"
      using D(2) by (simp add: m)
    show "(status s = Active) = (activeSession st' = Some k)"
      if "map_of (sessions st') k = Some s" for k s
      using old [OF that] D(3) [of k s] by (simp add: a)
    show "activeSession st' = Some k \<or> k \<in> set (queue st')"
      if "map_of (sessions st') k = Some s" for k s
      using old [OF that] D(4) [of k s] by (auto simp: a q)
    show "\<exists>s. map_of (sessions st') k = Some s" if "activeSession st' = Some k" for k
      using that D(5) [of k] by (simp add: a m)
    show "distinct (queue st')"
      using D(6) by (simp add: st'_def drop_session_def)
    show "\<exists>s. map_of (sessions st') k = Some s" if "k \<in> set (queue st')" for k
      using that D(7) [of k] by (simp add: q m)
    show "activeSession st' \<noteq> Some k" if "k \<in> set (queue st')" for k
      using that D(8) [of k] by (simp add: q a)
  qed
  then show ?thesis by (simp add: st'_def)
qed

lemma inv_core_activate:
  assumes "inv_core st" and "activeSession st = None" and "queue st = n # rest"
    and "map_of (sessions st) n = Some s"
  shows "inv_core (activate now n s (st\<lparr> queue := rest \<rparr>))"
proof -
  note D = inv_coreD [OF assms(1)]
  define st' where "st' = activate now n s (st\<lparr> queue := rest \<rparr>)"
  have q: "queue st' = rest" and a: "activeSession st' = Some n"
    by (simp_all add: st'_def activate_def)
  have m: "map_of (sessions st') k =
             (if k = n then Some (s\<lparr> status := Active, activatedAt := Some now \<rparr>)
              else map_of (sessions st) k)" for k
    by (simp add: st'_def activate_def update_conv)
  have n: "n \<notin> set rest" "distinct rest" using D(6) assms(3) by simp_all
  have "inv_core st'"
  proof (rule inv_coreI)
    show "distinct (map fst (sessions st'))"
      using D(1) by (simp add: st'_def activate_def distinct_update)
    show "map_of (sessions st') [] = None"
      using D(2) assms(4) by (auto simp: m)
    show "(status s' = Active) = (activeSession st' = Some k)"
      if "map_of (sessions st') k = Some s'" for k s'
    proof (cases "k = n")
      case True
      then show ?thesis using that by (auto simp: m a)
    next
      case False
      then have "map_of (sessions st) k = Some s'" using that by (simp add: m)
      from D(3) [OF this] assms(2) False show ?thesis by (simp add: a)
    qed
    show "activeSession st' = Some k \<or> k \<in> set (queue st')"
      if "map_of (sessions st') k = Some s'" for k s'
    proof (cases "k = n")
      case True
      then show ?thesis by (simp add: a)
    next
      case False
      then have "map_of (sessions st) k = Some s'" using that by (simp add: m)
      from D(4) [OF this] assms(2,3) False show ?thesis by (simp add: q)
    qed
    show "\<exists>s. map_of (sessions st') k = Some s" if "activeSession st' = Some k" for k
      using that by (simp add: a m)
    show "distinct (queue st')" using n by (simp add: q)
    show "\<exists>s. map_of (sessions st') k = Some s" if "k \<in> set (queue st')" for k
      using that D(7) [of k] assms(3) by (simp add: q m)
    show "activeSession st' \<noteq> Some k" if "k \<in> set (queue st')" for k
      using that n by (auto simp: q a)
  qed
  then show ?thesis by (simp add: st'_def)
qed

lemma inv_core_head_known:
  "inv_core st \<Longrightarrow> queue st = n # rest \<Longrightarrow> map_of (sessions st) n \<noteq> None"
  using inv_coreD(7) [of st n] by auto

lemma inv_core_preserved:
  "inv_core st \<Longrightarrow> inv_core (removeSession now sid pn st)"
  "inv_core st1 \<Longrightarrow> activeSession st1 = None \<Longrightarrow> inv_core (snd (processQueue now1 st1))"
  "inv_core st2 \<Longrightarrow> inv_core (cleanupExpiredSessions now2 st2)"
  "inv_core st3 \<Longrightarrow> inv_core (cleanup_loop now3 ks st3)"
proof (induct now sid pn st and now1 st1 and now2 st2 and now3 ks st3
       rule: removeSession_processQueue_cleanupExpiredSessions_cleanup_loop.induct)
  case (1 now sessionId processNext st)
  have d: "inv_core (drop_session sessionId st)"
    using 1(2) by (rule inv_core_drop_session)
  show ?case
  proof (cases "activeSession st = Some sessionId \<and> processNext")
    case True
    have "activeSession (drop_session sessionId st) = None"
      using True by (simp add: drop_session_def)
    with 1(1) [OF refl refl True d] True show ?thesis
      by (simp add: removeSession.simps)
  next
    case False
    then show ?thesis using d by (auto simp: removeSession.simps)
  qed
next
  case (2 now st)
  define st1 where "st1 = cleanupExpiredSessions now st"
  have i1: "inv_core st1" using 2(1) [OF 2(3)] by (simp add: st1_def)
  have a1: "activeSession st1 = None"
    using frame(3) [of st now] 2(4) by (simp add: st1_def)
  show ?case
  proof (cases "queue st1")
    case Nil
    have "st1\<lparr> activeSession := None \<rparr> = st1" using a1 by simp
    then show ?thesis using Nil i1
      by (simp add: processQueue.simps [of now st] st1_def [symmetric])
  next
    case (Cons n rest)
    from inv_core_head_known [OF i1 Cons] obtain s where s: "map_of (sessions st1) n = Some s"
      by blast
    have "inv_core (activate now n s (st1\<lparr> queue := rest \<rparr>))"
      using i1 a1 Cons s by (rule inv_core_activate)
    then show ?thesis using Cons s
      by (simp add: processQueue.simps [of now st] st1_def [symmetric])
  qed
next
  case (3 now st)
  then show ?case by (simp add: cleanupExpiredSessions.simps)
next
  case (4 now st)
  then show ?case by simp
next
  case (5 now k ks st)
  show ?case
  proof (cases "map_of (sessions st) k")
    case None
    then show ?thesis using 5(1) 5(5) by simp
  next
    case (Some s)
    show ?thesis
    proof (cases "status s = Waiting \<and> maxWaitTime < now - joinedAt s")
      case True
      have "inv_core (removeSession now k True st)"
        using 5(2) [OF Some True 5(5)] .
      from 5(3) [OF Some True this] show ?thesis
        using Some True by simp
    next
      case False
      from 5(4) [OF Some False 5(5)] show ?thesis
        using Some False by auto
    qed
  qed
qed


lemma removeSession_not_active:
  "activeSession st \<noteq> Some sid \<Longrightarrow> removeSession now sid pn st = drop_session sid st"
  by (simp add: removeSession.simps)

lemma removeSession_active:
  "activeSession st = Some sid \<Longrightarrow>
   removeSession now sid True st = snd (processQueue now (drop_session sid st))"
  by (simp add: removeSession.simps)

lemma stale_not_active:
  assumes "inv_core st" and "stale now st k"
  shows "activeSession st \<noteq> Some k"
proof
  assume a: "activeSession st = Some k"
  from assms(2) obtain s where s: "map_of (sessions st) k = Some s" "status s = Waiting"
    by (auto simp: stale_def split: option.splits)
  from assms(1) s(1) a have "status s = Active" unfolding inv_core_def by blast
  with s(2) show False by simp
qed

lemma stale_drop_session:
  "stale now (drop_session k st) j \<longleftrightarrow> j \<noteq> k \<and> stale now st j"
  by (simp add: stale_def drop_session_def delete_conv)

lemma remove1_filter: "distinct xs \<Longrightarrow> remove1 x xs = filter (\<lambda>y. y \<noteq> x) xs"
  by (simp add: distinct_remove1_removeAll removeAll_filter_not_eq) metis

lemma cleanup_loop_char:
  "inv_core st \<Longrightarrow>
   queue (cleanup_loop now ks st) =
     filter (\<lambda>k. \<not> (k \<in> set ks \<and> stale now st k)) (queue st) \<and>
   (\<forall>k. map_of (sessions (cleanup_loop now ks st)) k =
        (if k \<in> set ks \<and> stale now st k then None else map_of (sessions st) k)) \<and>
   activeSession (cleanup_loop now ks st) = activeSession st \<and>
   timers (cleanup_loop now ks st) = timers st"
proof (induction ks arbitrary: st)
  case Nil
  show ?case by simp
next
  case (Cons k ks)
  show ?case
  proof (cases "stale now st k")
    case False
    have eq: "cleanup_loop now (k # ks) st = cleanup_loop now ks st"
      using False by (auto simp: stale_def split: option.splits)
    have p: "(\<lambda>j. \<not> (j \<in> set (k # ks) \<and> stale now st j)) =
             (\<lambda>j. \<not> (j \<in> set ks \<and> stale now st j))"
      using False by auto
    have m: "\<And>j. (j \<in> set (k # ks) \<and> stale now st j) = (j \<in> set ks \<and> stale now st j)"
      using False by auto
    show ?thesis unfolding eq p m using Cons.IH [OF Cons.prems] .
  next
    case True
    define st2 where "st2 = drop_session k st"
    have na: "activeSession st \<noteq> Some k"
      using Cons.prems True by (rule stale_not_active)
    have eq: "cleanup_loop now (k # ks) st = cleanup_loop now ks st2"
      using True na by (auto simp: stale_def st2_def removeSession_not_active split: option.splits)
    have i2: "inv_core st2" unfolding st2_def using Cons.prems by (rule inv_core_drop_session)
    have d: "distinct (queue st)" using Cons.prems by (simp add: inv_core_def)
    have q2: "queue st2 = filter (\<lambda>y. y \<noteq> k) (queue st)"
      by (simp add: st2_def drop_session_def remove1_filter [OF d])
    have s2: "\<And>j. map_of (sessions st2) j = (if j = k then None else map_of (sessions st) j)"
      by (simp add: st2_def drop_session_def delete_conv)
    have a2: "activeSession st2 = activeSession st" "timers st2 = timers st"
      using na by (simp_all add: st2_def drop_session_def)
    have st2_stale: "\<And>j. stale now st2 j \<longleftrightarrow> j \<noteq> k \<and> stale now st j"
      by (simp add: st2_def stale_drop_session)
    note IH = Cons.IH [OF i2]
    have 1: "queue (cleanup_loop now ks st2) =
               filter (\<lambda>j. \<not> (j \<in> set (k # ks) \<and> stale now st j)) (queue st)"
      using IH True unfolding q2 st2_stale filter_filter
      by (auto intro!: filter_cong)
    have 2: "\<And>j. map_of (sessions (cleanup_loop now ks st2)) j =
               (if j \<in> set (k # ks) \<and> stale now st j then None else map_of (sessions st) j)"
      using IH True unfolding s2 st2_stale by auto
    show ?thesis unfolding eq using 1 2 IH a2 by simp
  qed
qed

lemma stale_in_keys: "stale now st k \<Longrightarrow> k \<in> set (map fst (sessions st))"
  by (auto simp: stale_def split: option.splits dest: map_of_SomeD intro: rev_image_eqI)

lemma cleanupExpiredSessions_char:
  assumes "inv_core st"
  shows "queue (cleanupExpiredSessions now st) = filter (\<lambda>k. \<not> stale now st k) (queue st)"
    and "map_of (sessions (cleanupExpiredSessions now st)) k =
           (if stale now st k then None else map_of (sessions st) k)"
    and "activeSession (cleanupExpiredSessions now st) = activeSession st"
    and "timers (cleanupExpiredSessions now st) = timers st"
proof -
  note c = cleanup_loop_char [OF assms, of now "map fst (sessions st)"]
  have p: "\<And>j. (j \<in> set (map fst (sessions st)) \<and> stale now st j) = stale now st j"
    using stale_in_keys by blast
  show "queue (cleanupExpiredSessions now st) = filter (\<lambda>k. \<not> stale now st k) (queue st)"
    using c unfolding p by (simp add: cleanupExpiredSessions.simps)
  show "map_of (sessions (cleanupExpiredSessions now st)) k =
           (if stale now st k then None else map_of (sessions st) k)"
    using c unfolding p by (simp add: cleanupExpiredSessions.simps)
  show "activeSession (cleanupExpiredSessions now st) = activeSession st"
    using c by (simp add: cleanupExpiredSessions.simps)
  show "timers (cleanupExpiredSessions now st) = timers st"
    using c by (simp add: cleanupExpiredSessions.simps)
qed

lemma processQueue_unfold:
  assumes "inv_core st" and "activeSession st = None"
  shows "processQueue now st =
     (case filter (\<lambda>k. \<not> stale now st k) (queue st) of
        [] \<Rightarrow> (None, cleanupExpiredSessions now st)
      | n # rest \<Rightarrow>
          (Some n, activate now n (the (map_of (sessions st) n))
                     ((cleanupExpiredSessions now st)\<lparr> queue := rest \<rparr>)))"
proof -
  define st1 where "st1 = cleanupExpiredSessions now st"
  have i1: "inv_core st1" unfolding st1_def using assms(1) by (rule inv_core_preserved(3))
  have q1: "queue st1 = filter (\<lambda>k. \<not> stale now st k) (queue st)"
    unfolding st1_def by (rule cleanupExpiredSessions_char(1) [OF assms(1)])
  have a1: "activeSession st1 = None"
    unfolding st1_def using cleanupExpiredSessions_char(3) [OF assms(1)] assms(2) by simp
  show ?thesis
  proof (cases "queue st1")
    case Nil
    have "st1\<lparr> activeSession := None \<rparr> = st1" using a1 by simp
    then show ?thesis using Nil q1
      by (simp add: processQueue.simps [of now st] st1_def [symmetric])
  next
    case (Cons n rest)
    from inv_core_head_known [OF i1 Cons] obtain s where s: "map_of (sessions st1) n = Some s"
      by blast
    have "n \<in> set (filter (\<lambda>k. \<not> stale now st k) (queue st))"
      using Cons q1 by (metis list.set_intros(1))
    then have "\<not> stale now st n" by simp
    then have "map_of (sessions st) n = Some s"
      using s cleanupExpiredSessions_char(2) [OF assms(1), of now n] by (simp add: st1_def)
    then show ?thesis using Cons s q1
      by (simp add: processQueue.simps [of now st] st1_def [symmetric])
  qed
qed


lemma sorted_wrt_subseq:
  "subseq xs ys \<Longrightarrow> sorted_wrt P ys \<Longrightarrow> sorted_wrt P xs"
proof (induction rule: list_emb.induct)
  case (list_emb_Nil ys)
  show ?case by simp
next
  case (list_emb_Cons xs ys y)
  then show ?case by simp
next
  case (list_emb_Cons2 x y xs ys)
  have "set xs \<subseteq> set ys" using list_emb_Cons2(2) by (auto dest: list_emb_set)
  with list_emb_Cons2 show ?case by auto
qed

lemma inv_top_shrinks:
  assumes "inv_top st" and "shrinks st st'" and "inv_core st'"
    and "activeSession st' = None \<longrightarrow> queue st' = []"
  shows "inv_top st'"
proof -
  have "length (queue st') \<le> length (queue st)"
    using assms(2) by (auto simp: shrinks_def dest: list_emb_length)
  then show ?thesis using assms by (simp add: inv_top_def)
qed

lemma inv_time_shrinks:
  assumes "inv_time t st" and "shrinks st st'" and "inv_core st'"
  shows "inv_time t st'"
proof -
  have same: "joinedAt_of st' a = joinedAt_of st a" if "a \<in> set (queue st')" for a
  proof -
    from assms(3) that obtain s' where s': "map_of (sessions st') a = Some s'"
      unfolding inv_core_def by blast
    with assms(2) obtain s0 where "map_of (sessions st) a = Some s0" "joinedAt s' = joinedAt s0"
      unfolding shrinks_def by blast
    with s' show ?thesis by (simp add: joinedAt_of_def)
  qed
  have "sorted_wrt (\<lambda>a b. joinedAt_of st a \<le> joinedAt_of st b) (queue st')"
    using assms(1,2) by (auto simp: inv_time_def shrinks_def intro: sorted_wrt_subseq)
  then have "sorted_wrt (\<lambda>a b. joinedAt_of st' a \<le> joinedAt_of st' b) (queue st')"
    by (rule sorted_wrt_mono_rel [rotated]) (simp add: same)
  moreover have "\<forall>k s. map_of (sessions st') k = Some s \<longrightarrow> joinedAt s \<le> t"
    using assms(1,2) unfolding inv_time_def shrinks_def by metis
  ultimately show ?thesis by (simp add: inv_time_def)
qed

lemma inv_time_mono: "inv_time t st \<Longrightarrow> t \<le> t' \<Longrightarrow> inv_time t' st"
  unfolding inv_time_def by (meson order_trans)

lemma processQueue_slot:
  assumes "inv_core st" and "activeSession st = None"
  shows "activeSession (snd (processQueue now st)) = None \<longrightarrow> queue (snd (processQueue now st)) = []"
proof (cases "filter (\<lambda>k. \<not> stale now st k) (queue st)")
  case Nil
  then show ?thesis
    using cleanupExpiredSessions_char(1) [OF assms(1), of now]
    by (simp add: processQueue_unfold [OF assms])
next
  case (Cons n rest)
  then show ?thesis by (simp add: processQueue_unfold [OF assms] activate_def)
qed

lemma removeSession_slot:
  assumes "inv_top st"
  shows "activeSession (removeSession now sid True st) = None \<longrightarrow>
         queue (removeSession now sid True st) = []"
proof (cases "activeSession st = Some sid")
  case True
  have "inv_core (drop_session sid st)"
    using assms by (simp add: inv_top_def inv_core_drop_session)
  moreover have "activeSession (drop_session sid st) = None"
    using True by (simp add: drop_session_def)
  ultimately show ?thesis
    using processQueue_slot by (simp add: removeSession_active [OF True])
next
  case False
  then show ?thesis using assms
    by (auto simp: removeSession_not_active inv_top_def drop_session_def)
qed

lemma inv_top_removeSession:
  assumes "inv_top st"
  shows "inv_top (removeSession now sid True st)"
  using assms frame(1) [of st now sid True] removeSession_slot [OF assms]
    inv_core_preserved(1) [of st now sid True]
  by (intro inv_top_shrinks [OF assms]) (simp_all add: inv_top_def)

lemma inv_top_processQueue:
  assumes "inv_top st" and "activeSession st = None"
  shows "inv_top (snd (processQueue now st))"
  using assms frame(2) [of st now] processQueue_slot [of st now]
    inv_core_preserved(2) [of st now]
  by (intro inv_top_shrinks [OF assms(1)]) (simp_all add: inv_top_def)

lemma inv_top_cleanupExpiredSessions:
  assumes "inv_top st"
  shows "inv_top (cleanupExpiredSessions now st)"
proof -
  have c: "inv_core st" using assms by (simp add: inv_top_def)
  show ?thesis
    using assms frame(3) [of st now] inv_core_preserved(3) [OF c, of now]
      cleanupExpiredSessions_char(1,3) [OF c, of now]
    by (intro inv_top_shrinks [OF assms]) (auto simp: inv_top_def)
qed


lemma truthy_active: "inv_core st \<Longrightarrow> truthy (activeSession st) \<longleftrightarrow> activeSession st \<noteq> None"
  unfolding inv_core_def truthy_def by (auto split: option.splits)

lemma joinQueue_known:
  "map_of (sessions st) sid \<noteq> None \<Longrightarrow> joinQueue now sid fi st = (getQueueStatus now sid st, st)"
  by (simp add: joinQueue_def)

lemma joinQueue_full:
  "map_of (sessions st) sid = None \<Longrightarrow> length (queue st) \<ge> MAX_QUEUE_SIZE \<Longrightarrow>
   truthy (activeSession st) \<Longrightarrow> joinQueue now sid fi st = (QueueFull, st)"
  by (simp add: joinQueue_def)

lemma joinQueue_immediate:
  "map_of (sessions st) sid = None \<Longrightarrow> \<not> truthy (activeSession st) \<Longrightarrow>
   snd (joinQueue now sid fi st) =
     activate now sid (new_session now sid fi)
       (st\<lparr> sessions := AList.update sid (new_session now sid fi) (sessions st) \<rparr>)"
  by (simp add: joinQueue_def Let_def)

lemma joinQueue_enqueue:
  "map_of (sessions st) sid = None \<Longrightarrow> truthy (activeSession st) \<Longrightarrow>
   length (queue st) < MAX_QUEUE_SIZE \<Longrightarrow> sid \<notin> set (queue st) \<Longrightarrow>
   snd (joinQueue now sid fi st) =
     st\<lparr> sessions := AList.update sid (new_session now sid fi) (sessions st),
         queue := queue st @ [sid] \<rparr>"
  by (simp add: joinQueue_def Let_def)

lemma queue_known: "inv_core st \<Longrightarrow> k \<in> set (queue st) \<Longrightarrow> map_of (sessions st) k \<noteq> None"
  unfolding inv_core_def by blast

lemma inv_core_immediate:
  assumes "inv_top st" and "map_of (sessions st) sid = None" and "activeSession st = None"
    and "sid \<noteq> []"
  shows "inv_core (activate now sid (new_session now sid fi)
           (st\<lparr> sessions := AList.update sid (new_session now sid fi) (sessions st) \<rparr>))"
proof -
  have q: "queue st = []" using assms(1,3) by (simp add: inv_top_def)
  have c: "inv_core st" using assms(1) by (simp add: inv_top_def)
  have none: "\<And>k. map_of (sessions st) k = None"
  proof (rule ccontr)
    fix k assume "map_of (sessions st) k \<noteq> None"
    then obtain s where "map_of (sessions st) k = Some s" by blast
    with c assms(3) q show False unfolding inv_core_def by fastforce
  qed
  have ds: "distinct (map fst (sessions st))" using c by (simp add: inv_core_def)
  show ?thesis
    unfolding inv_core_def activate_def
    using q none ds assms(4)
    by (auto simp: distinct_update update_conv new_session_def)
qed

lemma inv_core_enqueue:
  assumes "inv_core st" and "map_of (sessions st) sid = None" and "activeSession st \<noteq> None"
    and "sid \<noteq> []"
  shows "inv_core (st\<lparr> sessions := AList.update sid (new_session now sid fi) (sessions st),
                       queue := queue st @ [sid] \<rparr>)"
proof -
  have nq: "sid \<notin> set (queue st)" using assms(1,2) queue_known by blast
  have na: "activeSession st \<noteq> Some sid" using assms(1,2) unfolding inv_core_def by blast
  show ?thesis
    using assms(1,2,4) nq na unfolding inv_core_def
    by (auto simp: distinct_update update_conv new_session_def)
qed

lemma inv_top_joinQueue:
  assumes "inv_top st" and "sid \<noteq> []"
  shows "inv_top (snd (joinQueue now sid fi st))"
proof -
  have c: "inv_core st" using assms(1) by (simp add: inv_top_def)
  note tr = truthy_active [OF c]
  show ?thesis
  proof (cases "map_of (sessions st) sid")
    case (Some s)
    then show ?thesis using assms(1) by (simp add: joinQueue_known)
  next
    case None
    show ?thesis
    proof (cases "activeSession st = None")
      case True
      have q: "queue st = []" using assms(1) True by (simp add: inv_top_def)
      have "inv_core (snd (joinQueue now sid fi st))"
        using inv_core_immediate [OF assms(1) None True assms(2)] True tr
        by (simp add: joinQueue_immediate [OF None])
      moreover have "queue (snd (joinQueue now sid fi st)) = []"
        using True tr q by (simp add: joinQueue_immediate [OF None] activate_def)
      ultimately show ?thesis by (simp add: inv_top_def)
    next
      case False
      show ?thesis
      proof (cases "length (queue st) \<ge> MAX_QUEUE_SIZE")
        case True
        then show ?thesis using assms(1) False tr by (simp add: joinQueue_full [OF None])
      next
        case short: False
        have nq: "sid \<notin> set (queue st)" using c None queue_known by blast
        have eq: "snd (joinQueue now sid fi st) =
                    st\<lparr> sessions := AList.update sid (new_session now sid fi) (sessions st),
                        queue := queue st @ [sid] \<rparr>"
          using False tr short nq by (intro joinQueue_enqueue [OF None]) simp_all
        show ?thesis unfolding eq inv_top_def
          using inv_core_enqueue [OF c None False assms(2)] False short by simp
      qed
    qed
  qed
qed

lemma inv_time_joinQueue:
  assumes "inv_top st" and "inv_time t st" and "t \<le> now" and "sid \<noteq> []"
  shows "inv_time now (snd (joinQueue now sid fi st))"
proof -
  have c: "inv_core st" using assms(1) by (simp add: inv_top_def)
  note tr = truthy_active [OF c]
  have old: "inv_time now st" using assms(2,3) by (rule inv_time_mono)
  show ?thesis
  proof (cases "map_of (sessions st) sid")
    case (Some s)
    then show ?thesis using old by (simp add: joinQueue_known)
  next
    case None
    show ?thesis
    proof (cases "activeSession st = None")
      case True
      have q: "queue st = []" using assms(1) True by (simp add: inv_top_def)
      show ?thesis
        using True tr q old
        by (auto simp: joinQueue_immediate [OF None] activate_def inv_time_def update_conv
              new_session_def)
    next
      case False
      show ?thesis
      proof (cases "length (queue st) \<ge> MAX_QUEUE_SIZE")
        case True
        then show ?thesis using old False tr by (simp add: joinQueue_full [OF None])
      next
        case short: False
        have nq: "sid \<notin> set (queue st)" using c None queue_known by blast
        define st' where
          "st' = st\<lparr> sessions := AList.update sid (new_session now sid fi) (sessions st),
                     queue := queue st @ [sid] \<rparr>"
        have eq: "snd (joinQueue now sid fi st) = st'"
          unfolding st'_def using False tr short nq by (intro joinQueue_enqueue [OF None]) simp_all
        have j_new: "joinedAt_of st' sid = now"
          by (simp add: st'_def joinedAt_of_def update_conv new_session_def)
        have j_old: "joinedAt_of st' a = joinedAt_of st a" if "a \<in> set (queue st)" for a
          using that nq by (auto simp: st'_def joinedAt_of_def update_conv)
        have le: "joinedAt_of st a \<le> now" if "a \<in> set (queue st)" for a
        proof -
          from queue_known [OF c that] obtain s where "map_of (sessions st) a = Some s" by blast
          with old show ?thesis by (auto simp: inv_time_def joinedAt_of_def)
        qed
        have "sorted_wrt (\<lambda>a b. joinedAt_of st a \<le> joinedAt_of st b) (queue st)"
          using old by (simp add: inv_time_def)
        then have "sorted_wrt (\<lambda>a b. joinedAt_of st' a \<le> joinedAt_of st' b) (queue st)"
          by (rule sorted_wrt_mono_rel [rotated]) (simp add: j_old)
        then have s: "sorted_wrt (\<lambda>a b. joinedAt_of st' a \<le> joinedAt_of st' b) (queue st')"
          using j_new j_old le by (simp add: st'_def sorted_wrt_append)
        have "\<forall>k s. map_of (sessions st') k = Some s \<longrightarrow> joinedAt s \<le> now"
          using old by (auto simp: st'_def inv_time_def update_conv new_session_def)
        with s show ?thesis unfolding eq by (simp add: inv_time_def)
      qed
    qed
  qed
qed


lemma inv_core_fields [simp]:
  "inv_core (st\<lparr> lastActivityTime := l \<rparr>) = inv_core st"
  "inv_core (st\<lparr> timers := tm \<rparr>) = inv_core st"
  "inv_core (st\<lparr> completedSessions := n \<rparr>) = inv_core st"
  by (simp_all add: inv_core_def)

lemma inv_top_fields [simp]:
  "inv_top (st\<lparr> lastActivityTime := l \<rparr>) = inv_top st"
  "inv_top (st\<lparr> timers := tm \<rparr>) = inv_top st"
  "inv_top (st\<lparr> completedSessions := n \<rparr>) = inv_top st"
  by (simp_all add: inv_top_def)

lemma inv_time_fields [simp]:
  "inv_time t (st\<lparr> lastActivityTime := l \<rparr>) = inv_time t st"
  "inv_time t (st\<lparr> timers := tm \<rparr>) = inv_time t st"
  "inv_time t (st\<lparr> completedSessions := n \<rparr>) = inv_time t st"
  by (simp_all add: inv_time_def joinedAt_of_def)

lemma shrinks_fields [simp]:
  "shrinks (st\<lparr> lastActivityTime := l \<rparr>) st' = shrinks st st'"
  "shrinks (st\<lparr> timers := tm \<rparr>) st' = shrinks st st'"
  "shrinks (st\<lparr> completedSessions := n \<rparr>) st' = shrinks st st'"
  "shrinks st (st'\<lparr> lastActivityTime := l \<rparr>) = shrinks st st'"
  "shrinks st (st'\<lparr> timers := tm \<rparr>) = shrinks st st'"
  by (simp_all add: shrinks_def)

lemma checkSessionTimeout_cases:
  "checkSessionTimeout now sid st = st \<or>
   checkSessionTimeout now sid st = removeSession now sid True st \<or>
   (\<exists>tm. checkSessionTimeout now sid st = st\<lparr> timers := tm \<rparr>)"
  by (auto simp: checkSessionTimeout_def Let_def)

lemma inv_top_apply_op:
  assumes "inv_top st" and "op_ok st c"
  shows "inv_top (apply_op now c st)"
proof (cases c)
  case (JoinQueue sid fi)
  then show ?thesis using assms by (simp add: inv_top_joinQueue)
next
  case ProcessQueue
  then show ?thesis using assms by (simp add: inv_top_processQueue)
next
  case (UpdateActivity sid)
  then show ?thesis using assms by (simp add: updateActivity_def)
next
  case (CompleteSession sid)
  then show ?thesis using assms by (simp add: completeSession_def inv_top_removeSession)
next
  case (RemoveSession sid)
  then show ?thesis using assms by (simp add: inv_top_removeSession)
next
  case (CheckSessionTimeout sid)
  then show ?thesis
    using assms checkSessionTimeout_cases [of now sid st]
    by (auto simp: inv_top_removeSession)
next
  case CleanupExpiredSessions
  then show ?thesis using assms by (simp add: inv_top_cleanupExpiredSessions)
qed

lemma shrinks_apply_op:
  assumes "\<And>sid fi. c \<noteq> JoinQueue sid fi"
  shows "shrinks st (apply_op now c st)"
proof (cases c)
  case (JoinQueue sid fi)
  then show ?thesis using assms by simp
next
  case ProcessQueue
  then show ?thesis using frame(2) by simp
next
  case (UpdateActivity sid)
  then show ?thesis by (simp add: updateActivity_def shrinks_refl)
next
  case (CompleteSession sid)
  then show ?thesis
    using frame(1) [of "st\<lparr> completedSessions := Suc (completedSessions st) \<rparr>" now sid True]
    by (simp add: completeSession_def)
next
  case (RemoveSession sid)
  then show ?thesis using frame(1) by simp
next
  case (CheckSessionTimeout sid)
  then show ?thesis
    using checkSessionTimeout_cases [of now sid st] frame(1) [of st now sid True]
    by (auto simp: shrinks_refl)
next
  case CleanupExpiredSessions
  then show ?thesis using frame(3) by simp
qed

lemma inv_time_apply_op:
  assumes "inv_top st" and "inv_time t st" and "t \<le> now" and "op_ok st c"
  shows "inv_time now (apply_op now c st)"
proof (cases "\<exists>sid fi. c = JoinQueue sid fi")
  case True
  then show ?thesis using assms by (auto simp: inv_time_joinQueue)
next
  case False
  have c: "inv_core (apply_op now c st)"
    using inv_top_apply_op [OF assms(1,4)] by (simp add: inv_top_def)
  have nj: "c \<noteq> JoinQueue sid fi" for sid fi using False by blast
  have sh: "shrinks st (apply_op now c st)" by (rule shrinks_apply_op) (rule nj)
  show ?thesis
    by (rule inv_time_shrinks [OF inv_time_mono [OF assms(2,3)] sh c])
qed

lemma run_append: "run (xs @ ys) st = run ys (run xs st)"
  by (induction xs arbitrary: st) auto

lemma admissible_append:
  "admissible st (xs @ ys) \<longleftrightarrow> admissible st xs \<and> admissible (run xs st) ys"
  by (induction xs arbitrary: st) auto

lemma clock_ok_append:
  "clock_ok t (xs @ ys) \<longleftrightarrow> clock_ok t xs \<and> clock_ok (clock_end t xs) ys"
  by (induction xs arbitrary: t) (auto simp: clock_end_def)

lemma run_inv_top: "inv_top st \<Longrightarrow> admissible st ops \<Longrightarrow> inv_top (run ops st)"
  by (induction ops arbitrary: st) (auto simp: inv_top_apply_op)

lemma run_inv_time:
  "inv_top st \<Longrightarrow> inv_time t st \<Longrightarrow> admissible st ops \<Longrightarrow> clock_ok t ops \<Longrightarrow>
   inv_time (clock_end t ops) (run ops st)"
proof (induction ops arbitrary: st t)
  case Nil
  then show ?case by (simp add: clock_end_def)
next
  case (Cons x ops)
  obtain now c where x: "x = (now, c)" by (cases x)
  have 1: "inv_top (apply_op now c st)" using Cons.prems x by (simp add: inv_top_apply_op)
  have 2: "inv_time now (apply_op now c st)"
    using Cons.prems x by (intro inv_time_apply_op [of st t]) simp_all
  have "inv_time (clock_end now ops) (run ops (apply_op now c st))"
    using Cons.prems x by (intro Cons.IH [OF 1 2]) simp_all
  then show ?case using x by (cases "ops = []") (simp_all add: clock_end_def)
qed

lemma inv_top_new: "inv_top new_QueueManager"
  by (simp add: inv_top_def inv_core_new) (simp add: new_QueueManager_def)

lemma inv_time_new: "inv_time t new_QueueManager"
  by (simp add: inv_time_def new_QueueManager_def)

section \<open>Admission queue: the claims\<close>

lemma length_filter_le_one:
  assumes "distinct (map fst xs)" and "\<And>k s. (k, s) \<in> set xs \<Longrightarrow> P (k, s) \<Longrightarrow> k = a"
  shows "length (filter P xs) \<le> 1"
proof -
  have d: "distinct (map fst (filter P xs))" using assms(1) by (rule distinct_map_filter)
  have "set (map fst (filter P xs)) \<subseteq> {a}" using assms(2) by auto
  then have "card (set (map fst (filter P xs))) \<le> card {a}"
    by (intro card_mono) simp_all
  then have "length (map fst (filter P xs)) \<le> 1"
    using distinct_card [OF d] by simp
  then show ?thesis by simp
qed

lemma active_count_inv:
  assumes "inv_core st"
  shows "active_count st = (if activeSession st = None then 0 else 1)"
proof -
  note D = inv_coreD [OF assms]
  have key: "k = a" if "(k, s) \<in> set (sessions st)" "status s = Active" "activeSession st = Some a"
    for k s a
  proof -
    have "map_of (sessions st) k = Some s" using D(1) that(1) by simp
    from D(3) [OF this] that(2,3) show ?thesis by simp
  qed
  show ?thesis
  proof (cases "activeSession st")
    case None
    have "filter (\<lambda>(k, s). status s = Active) (sessions st) = []"
    proof (rule ccontr)
      assume "filter (\<lambda>(k, s). status s = Active) (sessions st) \<noteq> []"
      then obtain k s where ks: "(k, s) \<in> set (sessions st)" "status s = Active"
        by (auto simp: filter_empty_conv)
      have "map_of (sessions st) k = Some s" using D(1) ks(1) by simp
      from D(3) [OF this] ks(2) None show False by simp
    qed
    then show ?thesis using None by (simp add: active_count_def)
  next
    case (Some a)
    have le: "active_count st \<le> 1"
      unfolding active_count_def
      by (rule length_filter_le_one [OF D(1), of _ a]) (auto dest: key [OF _ _ Some])
    from D(5) [OF Some] obtain s where s: "map_of (sessions st) a = Some s" by blast
    then have "(a, s) \<in> set (sessions st)" by (rule map_of_SomeD)
    moreover have "status s = Active" using D(3) [OF s] Some by simp
    ultimately have "filter (\<lambda>(k, s). status s = Active) (sessions st) \<noteq> []"
      by (auto simp: filter_empty_conv)
    then have "active_count st \<ge> 1"
      unfolding active_count_def by (cases "filter (\<lambda>(k, s). status s = Active) (sessions st)") simp_all
    with le show ?thesis using Some by simp
  qed
qed

text \<open>
  C1 as stated fails. \<open>processQueue\<close> does not look at the slot: called on its own
  while a is active and b waits, it promotes b and leaves the session object of a with
  status active. And \<open>joinQueue\<close> tests the slot for truthiness: after a join with
  the empty string as id the slot is falsy, and the next join becomes active too.
\<close>

theorem two_active_sessions:
  "active_count (run [(1000, JoinQueue ''a'' a_pdf), (2000, JoinQueue ''b'' a_pdf),
                      (3000, ProcessQueue)] new_QueueManager) = Suc (Suc 0) \<and>
   active_count (run [(1000, JoinQueue [] a_pdf), (2000, JoinQueue ''b'' a_pdf)]
                   new_QueueManager) = Suc (Suc 0)"
  by code_simp

text \<open>
  C1, amended. In every state reached from the constructor by \<open>joinQueue\<close> with a
  non-empty session id (the join endpoint rejects an empty one), \<open>updateActivity\<close>,
  \<open>completeSession\<close>, \<open>removeSession\<close>, \<open>checkSessionTimeout\<close>,
  \<open>cleanupExpiredSessions\<close>, and \<open>processQueue\<close> as \<open>removeSession\<close> calls it or on
  its own with the slot free, at most one session has status active, and a session
  has status active exactly when the slot holds its id: the session the slot names
  exists and is the active one, and no other session is.
\<close>

theorem at_most_one_active:
  assumes "admissible new_QueueManager ops"
  shows "active_count (run ops new_QueueManager) \<le> 1 \<and>
         (active_count (run ops new_QueueManager) = 1 \<longleftrightarrow>
            activeSession (run ops new_QueueManager) \<noteq> None) \<and>
         (\<forall>k s. map_of (sessions (run ops new_QueueManager)) k = Some s \<longrightarrow>
            (status s = Active \<longleftrightarrow> activeSession (run ops new_QueueManager) = Some k)) \<and>
         (\<forall>k. activeSession (run ops new_QueueManager) = Some k \<longrightarrow>
            map_option status (map_of (sessions (run ops new_QueueManager)) k) = Some Active)"
proof -
  have "inv_top (run ops new_QueueManager)"
    using inv_top_new assms by (rule run_inv_top)
  then have c: "inv_core (run ops new_QueueManager)" by (simp add: inv_top_def)
  note D = inv_coreD [OF c]
  have p: "status s = Active \<longleftrightarrow> activeSession (run ops new_QueueManager) = Some k"
    if "map_of (sessions (run ops new_QueueManager)) k = Some s" for k s
    using D(3) [OF that] .
  have q: "map_option status (map_of (sessions (run ops new_QueueManager)) k) = Some Active"
    if "activeSession (run ops new_QueueManager) = Some k" for k
  proof -
    from D(5) [OF that] obtain s where s: "map_of (sessions (run ops new_QueueManager)) k = Some s"
      by blast
    with p [OF s] that show ?thesis by simp
  qed
  from active_count_inv [OF c] p q show ?thesis by simp
qed

theorem at_most_one_active_witness:
  "admissible new_QueueManager ops_demo \<and>
   activeSession (run ops_demo new_QueueManager) = Some ''c'' \<and>
   active_count (run ops_demo new_QueueManager) = 1 \<and>
   map_option status (map_of (sessions (run ops_demo new_QueueManager)) ''c'') = Some Active"
proof -
  have h: "admissible new_QueueManager ops_demo" by code_simp
  have a: "activeSession (run ops_demo new_QueueManager) = Some ''c''" by code_simp
  show ?thesis using at_most_one_active [OF h] h a by simp
qed

lemma getQueueStatus_not_full: "getQueueStatus now sid st \<noteq> QueueFull"
  by (simp add: getQueueStatus_def Let_def split: option.splits)

lemma joinQueue_full_iff_raw:
  assumes "map_of (sessions st) sid = None"
  shows "fst (joinQueue now sid fi st) = QueueFull \<longleftrightarrow>
           length (queue st) \<ge> MAX_QUEUE_SIZE \<and> truthy (activeSession st)"
  using assms getQueueStatus_not_full by (simp add: joinQueue_def Let_def)

text \<open>
  C2. In a state reached by the operations, \<open>joinQueue\<close> of an unknown session id
  returns the queue-full result exactly when the queue holds \<open>MAX_QUEUE_SIZE\<close> ids
  and the slot is taken; it then returns the state as it was; and with the slot free
  it never returns queue-full.
\<close>

theorem joinQueue_QueueFull_iff:
  assumes "admissible new_QueueManager ops" and "st = run ops new_QueueManager"
    and "map_of (sessions st) sid = None"
  shows "(fst (joinQueue now sid fi st) = QueueFull \<longleftrightarrow>
            length (queue st) = MAX_QUEUE_SIZE \<and> activeSession st \<noteq> None) \<and>
         (fst (joinQueue now sid fi st) = QueueFull \<longrightarrow> snd (joinQueue now sid fi st) = st) \<and>
         (activeSession st = None \<longrightarrow> fst (joinQueue now sid fi st) \<noteq> QueueFull)"
proof -
  have top: "inv_top st"
    unfolding assms(2) using inv_top_new assms(1) by (rule run_inv_top)
  then have c: "inv_core st" and le: "length (queue st) \<le> MAX_QUEUE_SIZE"
    by (simp_all add: inv_top_def)
  note tr = truthy_active [OF c]
  have iff: "fst (joinQueue now sid fi st) = QueueFull \<longleftrightarrow>
               length (queue st) = MAX_QUEUE_SIZE \<and> activeSession st \<noteq> None"
    using joinQueue_full_iff_raw [OF assms(3), of now fi] le tr by auto
  have same: "snd (joinQueue now sid fi st) = st" if "fst (joinQueue now sid fi st) = QueueFull"
    using that iff tr by (simp add: joinQueue_full [OF assms(3)])
  show ?thesis using iff same by blast
qed

theorem joinQueue_QueueFull_iff_witness:
  "admissible new_QueueManager ops_full \<and>
   length (queue (run ops_full new_QueueManager)) = MAX_QUEUE_SIZE \<and>
   activeSession (run ops_full new_QueueManager) = Some ''s0'' \<and>
   joinQueue 2000 ''s11'' a_pdf (run ops_full new_QueueManager) =
     (QueueFull, run ops_full new_QueueManager)"
proof -
  have h: "admissible new_QueueManager ops_full" by code_simp
  have l: "length (queue (run ops_full new_QueueManager)) = MAX_QUEUE_SIZE" by code_simp
  have a: "activeSession (run ops_full new_QueueManager) = Some ''s0''" by code_simp
  have n: "map_of (sessions (run ops_full new_QueueManager)) ''s11'' = None" by code_simp
  note T = joinQueue_QueueFull_iff [OF h refl n, of 2000 a_pdf]
  have "fst (joinQueue 2000 ''s11'' a_pdf (run ops_full new_QueueManager)) = QueueFull"
    using T l a by simp
  moreover from this have "snd (joinQueue 2000 ''s11'' a_pdf (run ops_full new_QueueManager))
      = run ops_full new_QueueManager"
    using T by blast
  ultimately show ?thesis using h l a by (simp add: prod_eq_iff)
qed


lemma stale_fields [simp]:
  "stale now (st\<lparr> completedSessions := n \<rparr>) = stale now st"
  "stale now (st\<lparr> timers := tm \<rparr>) = stale now st"
  "stale now (st\<lparr> lastActivityTime := l \<rparr>) = stale now st"
  "stale now (st\<lparr> queue := q \<rparr>) = stale now st"
  "stale now (st\<lparr> activeSession := a \<rparr>) = stale now st"
  by (simp_all add: stale_def fun_eq_iff)

lemma live_fields [simp]:
  "live now (st\<lparr> completedSessions := n \<rparr>) = live now st"
  "live now (st\<lparr> timers := tm \<rparr>) = live now st"
  "live now (st\<lparr> lastActivityTime := l \<rparr>) = live now st"
  by (simp_all add: live_def)

lemma removeSession_active_result:
  assumes "inv_core st" and "activeSession st = Some x"
  defines "d \<equiv> drop_session x st"
  shows "removeSession now x True st =
     (case live now st of
        [] \<Rightarrow> cleanupExpiredSessions now d
      | n # rest \<Rightarrow>
          activate now n (the (map_of (sessions st) n))
            ((cleanupExpiredSessions now d)\<lparr> queue := rest \<rparr>))"
    and "inv_core d" and "activeSession d = None" and "queue d = queue st"
    and "stale now d k \<longleftrightarrow> k \<noteq> x \<and> stale now st k"
    and "map_of (sessions d) k = (if k = x then None else map_of (sessions st) k)"
proof -
  note D = inv_coreD [OF assms(1)]
  have xq: "x \<notin> set (queue st)" using D(8) [of x] assms(2) by blast
  show id: "inv_core d" unfolding d_def using assms(1) by (rule inv_core_drop_session)
  show ad: "activeSession d = None" using assms(2) by (simp add: d_def drop_session_def)
  show qd: "queue d = queue st" using xq by (simp add: d_def drop_session_def remove1_idem)
  show sd: "stale now d k \<longleftrightarrow> k \<noteq> x \<and> stale now st k" for k
    by (simp add: d_def stale_drop_session)
  show md: "map_of (sessions d) k = (if k = x then None else map_of (sessions st) k)" for k
    by (simp add: d_def drop_session_def delete_conv)
  have f: "filter (\<lambda>k. \<not> stale now d k) (queue d) = live now st"
    unfolding qd live_def using xq by (intro filter_cong) (auto simp: sd)
  have the_n: "the (map_of (sessions d) n) = the (map_of (sessions st) n)"
    if "live now st = n # rest" for n rest
  proof -
    have "n \<in> set (live now st)" using that by simp
    then have "n \<in> set (queue st)" by (simp add: live_def)
    then have "n \<noteq> x" using xq by blast
    then show ?thesis by (simp add: md)
  qed
  show "removeSession now x True st =
     (case live now st of
        [] \<Rightarrow> cleanupExpiredSessions now d
      | n # rest \<Rightarrow>
          activate now n (the (map_of (sessions st) n))
            ((cleanupExpiredSessions now d)\<lparr> queue := rest \<rparr>))"
    unfolding removeSession_active [OF assms(2)] d_def [symmetric]
      processQueue_unfold [OF id ad] f
    using the_n by (cases "live now st") simp_all
qed

text \<open>What the removal of the active session leaves.\<close>

lemma removeSession_active_facts:
  fixes now :: int
  assumes "inv_core st" and "activeSession st = Some x"
  defines "st' \<equiv> removeSession now x True st"
  shows "activeSession st' = (case live now st of [] \<Rightarrow> None | n # rest \<Rightarrow> Some n)"
    and "queue st' = drop 1 (live now st)"
    and "map_of (sessions st') x = None"
    and "stale now st k \<Longrightarrow> map_of (sessions st') k = None"
    and "map_of (sessions st') k = Some s' \<Longrightarrow> \<not> (status s' = Waiting \<and> now - joinedAt s' > maxWaitTime)"
proof -
  define d where "d = drop_session x st"
  note R0 = removeSession_active_result [OF assms(1,2)]
  have R: "removeSession now x True st =
     (case live now st of
        [] \<Rightarrow> cleanupExpiredSessions now d
      | n # rest \<Rightarrow>
          activate now n (the (map_of (sessions st) n))
            ((cleanupExpiredSessions now d)\<lparr> queue := rest \<rparr>))"
    "inv_core d" "activeSession d = None" "queue d = queue st"
    "\<And>k. stale now d k \<longleftrightarrow> k \<noteq> x \<and> stale now st k"
    "\<And>k. map_of (sessions d) k = (if k = x then None else map_of (sessions st) k)"
    unfolding d_def by (rule R0)+
  note C = cleanupExpiredSessions_char [OF R(2), of now]
  have mc: "map_of (sessions (cleanupExpiredSessions now d)) j =
              (if j = x \<or> stale now st j then None else map_of (sessions st) j)" for j
    unfolding C(2) R(5) R(6) by simp
  have qc: "queue (cleanupExpiredSessions now d) = live now st"
  proof -
    have "x \<notin> set (queue st)" using inv_coreD(8) [OF assms(1), of x] assms(2) by blast
    then show ?thesis
      unfolding C(1) R(4) live_def by (intro filter_cong) (auto simp: R(5))
  qed
  have fresh: "\<not> (status s = Waiting \<and> now - joinedAt s > maxWaitTime)"
    if "map_of (sessions (cleanupExpiredSessions now d)) j = Some s" for j s
  proof -
    from that have "\<not> stale now st j" "map_of (sessions st) j = Some s"
      by (auto simp: mc split: if_splits)
    then show ?thesis by (simp add: stale_def)
  qed
  show "activeSession st' = (case live now st of [] \<Rightarrow> None | n # rest \<Rightarrow> Some n)"
    unfolding st'_def R(1) using C(3) R(3)
    by (cases "live now st") (simp_all add: activate_def)
  show "queue st' = drop 1 (live now st)"
    unfolding st'_def R(1) using qc
    by (cases "live now st") (simp_all add: activate_def)
  have nx: "n \<noteq> x \<and> \<not> stale now st n" if "live now st = n # rest" for n rest
  proof -
    have "n \<in> set (live now st)" using that by simp
    then have "n \<in> set (queue st)" "\<not> stale now st n" by (simp_all add: live_def)
    then show ?thesis using inv_coreD(8) [OF assms(1), of n] assms(2) by blast
  qed
  show "map_of (sessions st') x = None"
    unfolding st'_def R(1) using mc [of x] nx
    by (cases "live now st") (auto simp: activate_def update_conv)
  show "map_of (sessions st') k = None" if "stale now st k"
    unfolding st'_def R(1) using mc [of k] nx that
    by (cases "live now st") (auto simp: activate_def update_conv)
  show "\<not> (status s' = Waiting \<and> now - joinedAt s' > maxWaitTime)"
    if "map_of (sessions st') k = Some s'"
  proof (cases "live now st")
    case Nil
    then show ?thesis using that fresh [of k s'] by (simp add: st'_def R(1))
  next
    case (Cons n rest)
    show ?thesis
    proof (cases "k = n")
      case True
      then show ?thesis using that Cons
        by (auto simp: st'_def R(1) activate_def update_conv)
    next
      case False
      then show ?thesis using that Cons fresh [of k s']
        by (simp add: st'_def R(1) activate_def update_conv)
    qed
  qed
qed


text \<open>
  C4 as stated fails. x has been active for ten minutes and a has waited as long; x
  stops sending heartbeats at 541000 and its timeout check fires at 631000. The queue is
  not empty, but the sweep that \<open>processQueue\<close> starts with removes a as expired, and
  nobody becomes active.
\<close>

theorem timeout_promotes_nobody:
  "clock_ok 0 ops_stall \<and> admissible new_QueueManager ops_stall \<and>
   activeSession (run ops_stall new_QueueManager) = Some ''x'' \<and>
   queue (run ops_stall new_QueueManager) = [''a''] \<and>
   map_of (lastActivityTime (run ops_stall new_QueueManager)) ''x'' = Some 541000 \<and>
   last (timers (run ops_stall new_QueueManager)) = (631000, ''x'') \<and>
   activeSession (checkSessionTimeout 631000 ''x'' (run ops_stall new_QueueManager)) = None \<and>
   sessions (checkSessionTimeout 631000 ''x'' (run ops_stall new_QueueManager)) = []"
  by code_simp

text \<open>
  C4, amended. When the timeout check of the active session finds its last activity
  at least 90 s old, the session is removed, the waiting sessions older than ten
  minutes are removed with it, and the first of the remaining waiting sessions, if
  there is one, becomes the only active session; if none remains the slot stays empty.
  When the last activity is more recent, nothing changes but a timer armed for the
  remaining time.
\<close>

theorem checkSessionTimeout_removes_and_promotes:
  assumes "admissible new_QueueManager ops" and "st = run ops new_QueueManager"
    and "activeSession st = Some x"
    and "lastActivity = (case map_of (lastActivityTime st) x of None \<Rightarrow> 0 | Some t \<Rightarrow> t)"
  shows "(now - lastActivity \<ge> sessionTimeout \<longrightarrow>
            map_of (sessions (checkSessionTimeout now x st)) x = None \<and>
            activeSession (checkSessionTimeout now x st) =
              (case live now st of [] \<Rightarrow> None | n # rest \<Rightarrow> Some n) \<and>
            queue (checkSessionTimeout now x st) = drop 1 (live now st) \<and>
            active_count (checkSessionTimeout now x st) = (if live now st = [] then 0 else 1)) \<and>
         (now - lastActivity < sessionTimeout \<longrightarrow>
            checkSessionTimeout now x st =
              st\<lparr> timers := timers st @ [(now + (sessionTimeout - (now - lastActivity)), x)] \<rparr>)"
proof -
  have top: "inv_top st"
    unfolding assms(2) using inv_top_new assms(1) by (rule run_inv_top)
  then have c: "inv_core st" by (simp add: inv_top_def)
  note F = removeSession_active_facts [OF c assms(3), of now]
  have c': "inv_core (removeSession now x True st)"
    using c by (rule inv_core_preserved(1))
  have ac: "active_count (removeSession now x True st) = (if live now st = [] then 0 else 1)"
    unfolding active_count_inv [OF c'] F(1) by (cases "live now st") simp_all
  have out: "checkSessionTimeout now x st = removeSession now x True st"
    if "now - lastActivity \<ge> sessionTimeout"
    using that assms(3,4) by (simp add: checkSessionTimeout_def Let_def)
  have keep: "checkSessionTimeout now x st =
              st\<lparr> timers := timers st @ [(now + (sessionTimeout - (now - lastActivity)), x)] \<rparr>"
    if "now - lastActivity < sessionTimeout"
    using that assms(3,4) by (simp add: checkSessionTimeout_def Let_def)
  show ?thesis using out keep F(1,2,3) ac by simp
qed

theorem checkSessionTimeout_removes_and_promotes_witness:
  "admissible new_QueueManager ops_two \<and>
   activeSession (run ops_two new_QueueManager) = Some ''x'' \<and>
   map_of (lastActivityTime (run ops_two new_QueueManager)) ''x'' = Some 1000 \<and>
   sessionTimeout \<le> 91000 - 1000 \<and>
   live 91000 (run ops_two new_QueueManager) = [''a''] \<and>
   map_of (sessions (checkSessionTimeout 91000 ''x'' (run ops_two new_QueueManager))) ''x'' = None \<and>
   activeSession (checkSessionTimeout 91000 ''x'' (run ops_two new_QueueManager)) = Some ''a'' \<and>
   active_count (checkSessionTimeout 91000 ''x'' (run ops_two new_QueueManager)) = 1"
proof -
  have h: "admissible new_QueueManager ops_two" by code_simp
  have a: "activeSession (run ops_two new_QueueManager) = Some ''x''" by code_simp
  have l: "map_of (lastActivityTime (run ops_two new_QueueManager)) ''x'' = Some 1000"
    by code_simp
  have t: "sessionTimeout \<le> 91000 - 1000" by (simp add: sessionTimeout_def)
  have v: "live 91000 (run ops_two new_QueueManager) = [''a'']" by code_simp
  have la: "(1000::int) = (case map_of (lastActivityTime (run ops_two new_QueueManager)) ''x'' of
               None \<Rightarrow> 0 | Some t \<Rightarrow> t)"
    by (simp add: l)
  from checkSessionTimeout_removes_and_promotes [OF h refl a la, of 91000] t v
  show ?thesis using h a l by simp
qed


text \<open>
  C8 as stated fails. Every timer the class arms is a timeout check of a session;
  no interval runs the sweep. While x keeps its slot with heartbeats, session a, which
  joined at 2000, is still waiting at 1231000, more than twenty minutes later.
\<close>

theorem stale_waiting_session_stays:
  "clock_ok 0 ops_idle \<and> admissible new_QueueManager ops_idle \<and>
   clock_end 0 ops_idle = 1231000 \<and>
   activeSession (run ops_idle new_QueueManager) = Some ''x'' \<and>
   queue (run ops_idle new_QueueManager) = [''a''] \<and>
   map_option (\<lambda>s. (status s, joinedAt s)) (map_of (sessions (run ops_idle new_QueueManager)) ''a'')
     = Some (Waiting, 2000) \<and>
   stale 1231000 (run ops_idle new_QueueManager) ''a'' \<and>
   list_all (\<lambda>(due, sessionId). sessionId = ''x'') (timers (run ops_idle new_QueueManager)) \<and>
   last (timers (run ops_idle new_QueueManager)) = (1291000, ''x'')"
  by code_simp

lemma stale_free:
  assumes "\<And>k s. map_of (sessions st) k = Some s \<Longrightarrow>
             \<not> (status s = Waiting \<and> now - joinedAt s > maxWaitTime)"
  shows "\<not> stale now st k"
  using assms [of k] by (auto simp: stale_def split: option.splits)

lemma processQueue_sweeps:
  assumes "inv_core st" and "activeSession st = None"
    and "map_of (sessions (snd (processQueue now st))) k = Some s'"
  shows "\<not> (status s' = Waiting \<and> now - joinedAt s' > maxWaitTime)"
proof -
  note C = cleanupExpiredSessions_char [OF assms(1), of now]
  have fresh: "\<not> (status s = Waiting \<and> now - joinedAt s > maxWaitTime)"
    if "map_of (sessions (cleanupExpiredSessions now st)) j = Some s" for j s
  proof -
    from that have "\<not> stale now st j" "map_of (sessions st) j = Some s"
      by (auto simp: C(2) split: if_splits)
    then show ?thesis by (simp add: stale_def)
  qed
  show ?thesis
  proof (cases "filter (\<lambda>k. \<not> stale now st k) (queue st)")
    case Nil
    then show ?thesis using assms(3) fresh [of k s']
      by (simp add: processQueue_unfold [OF assms(1,2)])
  next
    case (Cons n rest)
    show ?thesis
    proof (cases "k = n")
      case True
      then show ?thesis using assms(3) Cons
        by (auto simp: processQueue_unfold [OF assms(1,2)] activate_def update_conv)
    next
      case False
      then show ?thesis using assms(3) Cons fresh [of k s']
        by (simp add: processQueue_unfold [OF assms(1,2)] activate_def update_conv)
    qed
  qed
qed

text \<open>
  C8, amended. The sweep removes exactly the waiting sessions older than ten minutes:
  after a call of \<open>cleanupExpiredSessions\<close> none is left and every other session is
  as it was. It runs as part of every \<open>processQueue\<close>, that is whenever the active
  session is removed (it completes, leaves or times out). Nothing else runs it: a
  heartbeat, a timeout check that finds the session alive, and the removal of a
  waiting session leave every other session as it was, however old.
\<close>

theorem sweep_runs_with_processQueue:
  assumes "admissible new_QueueManager ops" and "st = run ops new_QueueManager"
  shows "(\<forall>k. \<not> stale now (cleanupExpiredSessions now st) k) \<and>
         (\<forall>k. map_of (sessions (cleanupExpiredSessions now st)) k =
                (if stale now st k then None else map_of (sessions st) k)) \<and>
         queue (cleanupExpiredSessions now st) = live now st \<and>
         (activeSession st = None \<longrightarrow> (\<forall>k. \<not> stale now (snd (processQueue now st)) k)) \<and>
         (activeSession st = Some x \<and>
          lastActivity = (case map_of (lastActivityTime st) x of None \<Rightarrow> 0 | Some t \<Rightarrow> t) \<longrightarrow>
            (\<forall>k. \<not> stale now (snd (processQueue now (drop_session x st))) k) \<and>
            (\<forall>k. \<not> stale now (removeSession now x True st) k) \<and>
            (\<forall>k. \<not> stale now (completeSession now x st) k) \<and>
            (now - lastActivity \<ge> sessionTimeout \<longrightarrow>
               (\<forall>k. \<not> stale now (checkSessionTimeout now x st) k)) \<and>
            (now - lastActivity < sessionTimeout \<longrightarrow>
               sessions (checkSessionTimeout now x st) = sessions st \<and>
               queue (checkSessionTimeout now x st) = queue st) \<and>
            sessions (updateActivity now y st) = sessions st \<and>
            queue (updateActivity now y st) = queue st \<and>
            (y \<noteq> x \<longrightarrow> (\<forall>k. k \<noteq> y \<longrightarrow>
               stale now (removeSession now y True st) k = stale now st k)))"
proof -
  have top: "inv_top st"
    unfolding assms(2) using inv_top_new assms(1) by (rule run_inv_top)
  then have c: "inv_core st" by (simp add: inv_top_def)
  note C = cleanupExpiredSessions_char [OF c, of now]
  have e2: "map_of (sessions (cleanupExpiredSessions now st)) k =
              (if stale now st k then None else map_of (sessions st) k)" for k
    by (rule C(2))
  have e1: "\<not> stale now (cleanupExpiredSessions now st) k" for k
    using e2 [of k] by (auto simp: stale_def split: option.splits if_splits)
  have e3: "queue (cleanupExpiredSessions now st) = live now st"
    using C(1) by (simp add: live_def)
  have e4: "\<not> stale now (snd (processQueue now st)) k" if "activeSession st = None" for k
    by (rule stale_free) (rule processQueue_sweeps [OF c that])
  have old: "(\<forall>k. \<not> stale now (snd (processQueue now (drop_session x st))) k) \<and>
            (\<forall>k. \<not> stale now (removeSession now x True st) k) \<and>
            (\<forall>k. \<not> stale now (completeSession now x st) k) \<and>
            (now - lastActivity \<ge> sessionTimeout \<longrightarrow>
               (\<forall>k. \<not> stale now (checkSessionTimeout now x st) k)) \<and>
            (now - lastActivity < sessionTimeout \<longrightarrow>
               sessions (checkSessionTimeout now x st) = sessions st \<and>
               queue (checkSessionTimeout now x st) = queue st) \<and>
            sessions (updateActivity now y st) = sessions st \<and>
            queue (updateActivity now y st) = queue st \<and>
            (y \<noteq> x \<longrightarrow> (\<forall>k. k \<noteq> y \<longrightarrow>
               stale now (removeSession now y True st) k = stale now st k))"
    if ax: "activeSession st = Some x"
      and la: "lastActivity = (case map_of (lastActivityTime st) x of None \<Rightarrow> 0 | Some t \<Rightarrow> t)"
  proof -
    have 1: "\<not> stale now (removeSession now x True st) k" for k
      by (rule stale_free) (rule removeSession_active_facts(5) [OF c ax])
    have 0: "\<not> stale now (snd (processQueue now (drop_session x st))) k" for k
      using 1 [of k] by (simp add: removeSession_active [OF ax])
    define st2 where "st2 = st\<lparr> completedSessions := Suc (completedSessions st) \<rparr>"
    have c2: "inv_core st2" and a2: "activeSession st2 = Some x"
      using c ax by (simp_all add: st2_def)
    have 2: "\<not> stale now (completeSession now x st) k" for k
      unfolding completeSession_def st2_def [symmetric]
      by (rule stale_free) (rule removeSession_active_facts(5) [OF c2 a2])
    have 3: "\<not> stale now (checkSessionTimeout now x st) k"
      if "now - lastActivity \<ge> sessionTimeout" for k
      using that ax la 1 [of k] by (simp add: checkSessionTimeout_def Let_def)
    have 4: "sessions (checkSessionTimeout now x st) = sessions st \<and>
             queue (checkSessionTimeout now x st) = queue st"
      if "now - lastActivity < sessionTimeout"
      using that ax la by (simp add: checkSessionTimeout_def Let_def)
    have 5: "sessions (updateActivity now y st) = sessions st"
            "queue (updateActivity now y st) = queue st"
      by (simp_all add: updateActivity_def)
    have 6: "stale now (removeSession now y True st) k = stale now st k"
      if "y \<noteq> x" "k \<noteq> y" for k
      using that ax by (simp add: removeSession_not_active stale_drop_session)
    show ?thesis using 0 1 2 3 4 5 6 by blast
  qed
  show ?thesis using e1 e2 e3 e4 old by blast
qed

theorem sweep_runs_with_processQueue_witness:
  "admissible new_QueueManager ops_idle \<and>
   activeSession (run ops_idle new_QueueManager) = Some ''x'' \<and>
   stale 1231000 (run ops_idle new_QueueManager) ''a'' \<and>
   \<not> stale 1231000 (cleanupExpiredSessions 1231000 (run ops_idle new_QueueManager)) ''a'' \<and>
   map_of (sessions (cleanupExpiredSessions 1231000 (run ops_idle new_QueueManager))) ''a'' = None \<and>
   \<not> stale 1231000 (completeSession 1231000 ''x'' (run ops_idle new_QueueManager)) ''a'' \<and>
   sessions (updateActivity 1231000 ''x'' (run ops_idle new_QueueManager)) =
     sessions (run ops_idle new_QueueManager)"
proof -
  have h: "admissible new_QueueManager ops_idle" by code_simp
  have a: "activeSession (run ops_idle new_QueueManager) = Some ''x''" by code_simp
  have s: "stale 1231000 (run ops_idle new_QueueManager) ''a''" by code_simp
  note T = sweep_runs_with_processQueue [OF h refl, of 1231000 "''x''" _ "''x''"]
  have e: "\<not> stale 1231000 (cleanupExpiredSessions 1231000 (run ops_idle new_QueueManager)) ''a''"
    using conjunct1 [OF T] by (rule spec)
  have m: "map_of (sessions (cleanupExpiredSessions 1231000 (run ops_idle new_QueueManager))) ''a''
             = None"
    using spec [OF conjunct1 [OF conjunct2 [OF T]], of "''a''"] s by simp
  note O = mp [OF conjunct2 [OF conjunct2 [OF conjunct2 [OF conjunct2 [OF T]]]],
              OF conjI [OF a refl]]
  have c: "\<not> stale 1231000 (completeSession 1231000 ''x'' (run ops_idle new_QueueManager)) ''a''"
    using conjunct1 [OF conjunct2 [OF conjunct2 [OF O]]] by (rule spec)
  have u: "sessions (updateActivity 1231000 ''x'' (run ops_idle new_QueueManager)) =
             sessions (run ops_idle new_QueueManager)"
    using conjunct1 [OF conjunct2 [OF conjunct2 [OF conjunct2 [OF conjunct2 [OF conjunct2 [OF O]]]]]] .
  show ?thesis
    by (intro conjI h a s e m c u)
qed

lemma ahead_sorted:
  "sorted_wrt P xs \<Longrightarrow> a \<in> set xs \<Longrightarrow> b \<in> set xs \<Longrightarrow> \<not> P b a \<Longrightarrow> a \<noteq> b \<Longrightarrow>
   ahead a b xs"
proof (induction xs)
  case Nil
  then show ?case by simp
next
  case (Cons x xs)
  show ?case
  proof (cases "x = a")
    case True
    then show ?thesis using Cons.prems by (auto simp: ahead_def)
  next
    case False
    then have a: "a \<in> set xs" using Cons.prems by simp
    have "x \<noteq> b" using Cons.prems(1,4) a by auto
    then have b: "b \<in> set xs" using Cons.prems by simp
    have "ahead a b xs" using Cons.IH Cons.prems a b by simp
    then show ?thesis using False by (simp add: ahead_def)
  qed
qed

lemma ahead_decomp:
  assumes "ahead a b xs"
  shows "\<exists>pre post. xs = pre @ a # post \<and> b \<in> set post"
proof -
  define r where "r = dropWhile (\<lambda>x. x \<noteq> a) xs"
  have b: "b \<in> set (drop 1 r)" using assms by (simp add: ahead_def r_def)
  then have "r \<noteq> []" by auto
  then obtain h post where r: "r = h # post" by (cases r) auto
  have "dropWhile (\<lambda>x. x \<noteq> a) xs \<noteq> []" using r by (simp add: r_def)
  from hd_dropWhile [OF this] have "h = a" using r by (simp add: r_def)
  moreover have "xs = takeWhile (\<lambda>x. x \<noteq> a) xs @ r" by (simp add: r_def)
  ultimately show ?thesis using b r by auto
qed

lemma hd_filter_ahead:
  assumes "distinct xs" and "ahead a b xs" and "P a"
  shows "hd (filter P xs) \<noteq> b"
proof -
  from ahead_decomp [OF assms(2)] obtain pre post where
    xs: "xs = pre @ a # post" and b: "b \<in> set post" by blast
  have nb: "b \<notin> set pre" "a \<noteq> b" using assms(1) xs b by auto
  show ?thesis
  proof (cases "filter P pre")
    case Nil
    then show ?thesis using xs assms(3) nb by simp
  next
    case (Cons y ys)
    then have "y \<in> set (filter P pre)" by simp
    then have "y \<in> set pre" by simp
    then have "y \<noteq> b" using nb by blast
    then show ?thesis using xs Cons by simp
  qed
qed

lemma joinQueue_active:
  assumes "inv_top st" and "activeSession st \<noteq> None"
  shows "activeSession (snd (joinQueue now sid fi st)) = activeSession st"
proof -
  have c: "inv_core st" using assms(1) by (simp add: inv_top_def)
  have "truthy (activeSession st)" using truthy_active [OF c] assms(2) by simp
  then show ?thesis by (simp add: joinQueue_def Let_def)
qed

lemma joinQueue_queue:
  assumes "inv_top st"
  shows "queue (snd (joinQueue now sid fi st)) = queue st \<or>
         queue (snd (joinQueue now sid fi st)) = queue st @ [sid]"
proof -
  have c: "inv_core st" using assms(1) by (simp add: inv_top_def)
  have "queue st = []" if "\<not> truthy (activeSession st)"
    using that truthy_active [OF c] assms by (simp add: inv_top_def)
  then show ?thesis by (auto simp: joinQueue_def Let_def activate_def)
qed

lemma promotion_from_queue:
  assumes "inv_top st" and "op_ok st c" and "b \<in> set (queue st)"
    and "activeSession (apply_op now c st) = Some b"
  shows "live now st \<noteq> [] \<and> hd (live now st) = b \<and>
         (\<forall>k. stale now st k \<longrightarrow> map_of (sessions (apply_op now c st)) k = None)"
proof -
  have c: "inv_core st" using assms(1) by (simp add: inv_top_def)
  have nb: "activeSession st \<noteq> Some b" using inv_coreD(8) [OF c assms(3)] .
  have some: "activeSession st \<noteq> None" using assms(1,3) by (auto simp: inv_top_def)
  have rem: ?thesis if "activeSession st' = Some y" "inv_core st'" "live now st' = live now st"
    "stale now st' = stale now st" "apply_op now c st = removeSession now y True st'" for y st'
  proof -
    note F = removeSession_active_facts [OF that(2,1), of now]
    have a: "(case live now st of [] \<Rightarrow> None | n # rest \<Rightarrow> Some n) = Some b"
      using F(1) assms(4) that(3,5) by simp
    then have "live now st \<noteq> [] \<and> hd (live now st) = b"
      by (cases "live now st") simp_all
    moreover have "map_of (sessions (apply_op now c st)) k = None" if "stale now st k" for k
      using F(4) [of k] that \<open>stale now st' = stale now st\<close>
        \<open>apply_op now c st = removeSession now y True st'\<close> by simp
    ultimately show ?thesis by blast
  qed
  have rem_cases: ?thesis if "apply_op now c st = removeSession now y True st" for y
  proof (cases "activeSession st = Some y")
    case True
    show ?thesis by (rule rem [OF True c refl refl that])
  next
    case False
    then have "activeSession (apply_op now c st) = activeSession st"
      using that by (simp add: removeSession_not_active drop_session_def)
    then show ?thesis using assms(4) nb by simp
  qed
  show ?thesis
  proof (cases c)
    case (JoinQueue sid fi)
    then show ?thesis using joinQueue_active [OF assms(1) some] assms(4) nb by simp
  next
    case ProcessQueue
    then show ?thesis using assms(2) some by simp
  next
    case (UpdateActivity sid)
    then show ?thesis using assms(4) nb by (simp add: updateActivity_def split: if_splits)
  next
    case (CompleteSession y)
    define st2 where "st2 = st\<lparr> completedSessions := Suc (completedSessions st) \<rparr>"
    have e: "apply_op now c st = removeSession now y True st2"
      using CompleteSession by (simp add: completeSession_def st2_def)
    show ?thesis
    proof (cases "activeSession st = Some y")
      case True
      show ?thesis
        by (rule rem [OF _ _ _ _ e]) (simp_all add: st2_def True c)
    next
      case False
      then have "activeSession (apply_op now c st) = activeSession st"
        using e by (simp add: removeSession_not_active drop_session_def st2_def)
      then show ?thesis using assms(4) nb by simp
    qed
  next
    case (RemoveSession y)
    then show ?thesis by (intro rem_cases [of y]) simp
  next
    case (CheckSessionTimeout y)
    from checkSessionTimeout_cases [of now y st] show ?thesis
    proof (elim disjE exE)
      assume "checkSessionTimeout now y st = st"
      then show ?thesis using CheckSessionTimeout assms(4) nb by simp
    next
      assume "checkSessionTimeout now y st = removeSession now y True st"
      then show ?thesis using CheckSessionTimeout by (intro rem_cases [of y]) simp
    next
      fix tm assume "checkSessionTimeout now y st = st\<lparr> timers := tm \<rparr>"
      then show ?thesis using CheckSessionTimeout assms(4) nb by simp
    qed
  next
    case CleanupExpiredSessions
    then show ?thesis
      using cleanupExpiredSessions_char(3) [OF c, of now] assms(4) nb by simp
  qed
qed


text \<open>
  C3 as stated fails. a joined at 2000 and b at 520000, and both wait while x is
  active. When x completes at 640000 the sweep removes a, which has waited more than
  ten minutes, and b is promoted: a is never promoted.
\<close>

theorem later_session_promoted_first:
  "clock_ok 0 (ops_overtake @ [(640000, CompleteSession ''x'')]) \<and>
   admissible new_QueueManager (ops_overtake @ [(640000, CompleteSession ''x'')]) \<and>
   activeSession (run ops_overtake new_QueueManager) = Some ''x'' \<and>
   queue (run ops_overtake new_QueueManager) = [''a'', ''b''] \<and>
   joinedAt_of (run ops_overtake new_QueueManager) ''a'' = 2000 \<and>
   joinedAt_of (run ops_overtake new_QueueManager) ''b'' = 520000 \<and>
   map_option status (map_of (sessions (run ops_overtake new_QueueManager)) ''a'') = Some Waiting \<and>
   activeSession (completeSession 640000 ''x'' (run ops_overtake new_QueueManager)) = Some ''b'' \<and>
   map_of (sessions (completeSession 640000 ''x'' (run ops_overtake new_QueueManager))) ''a'' = None"
  by code_simp

text \<open>
  C3, amended. Of two waiting sessions the one that joined strictly earlier stands
  ahead in the queue. The later one, b, becomes active at a step only as the head of
  the queue that the sweep leaves, so only if that step removes a as expired (a has
  waited more than ten minutes): b is never promoted while a is still waiting. And a
  join leaves the queue as it is or appends the new id at its tail.
\<close>

theorem fifo_no_overtaking:
  assumes "admissible new_QueueManager (ops @ [(now, c)])"
    and "clock_ok t0 (ops @ [(now, c)])"
    and "st = run ops new_QueueManager" and "st' = apply_op now c st"
    and "a \<in> set (queue st)" and "b \<in> set (queue st)"
    and "joinedAt_of st a < joinedAt_of st b"
  shows "ahead a b (queue st) \<and>
         (activeSession st' = Some b \<longrightarrow>
            hd (live now st) = b \<and> stale now st a \<and> map_of (sessions st') a = None) \<and>
         (\<forall>sid fi. c = JoinQueue sid fi \<longrightarrow>
            queue st' = queue st \<or> queue st' = queue st @ [sid])"
proof -
  have adm: "admissible new_QueueManager ops" and ok: "op_ok st c"
    using assms(1,3) by (simp_all add: admissible_append)
  have clk: "clock_ok t0 ops" using assms(2) by (simp add: clock_ok_append)
  have top: "inv_top st"
    unfolding assms(3) using inv_top_new adm by (rule run_inv_top)
  then have core: "inv_core st" by (simp add: inv_top_def)
  have "inv_time (clock_end t0 ops) st"
    unfolding assms(3) using inv_top_new inv_time_new adm clk by (rule run_inv_time)
  then have sorted: "sorted_wrt (\<lambda>p q. joinedAt_of st p \<le> joinedAt_of st q) (queue st)"
    by (simp add: inv_time_def)
  have ne: "a \<noteq> b" using assms(7) by auto
  have ah: "ahead a b (queue st)"
    using sorted assms(5,6) by (rule ahead_sorted) (use assms(7) ne in simp_all)
  have pr: "hd (live now st) = b \<and> stale now st a \<and> map_of (sessions st') a = None"
    if act: "activeSession st' = Some b"
  proof -
    from promotion_from_queue [OF top ok assms(6), of now] act
    have P: "live now st \<noteq> []" "hd (live now st) = b"
      "\<And>k. stale now st k \<Longrightarrow> map_of (sessions st') k = None"
      by (simp_all add: assms(4))
    have "stale now st a"
    proof (rule ccontr)
      assume "\<not> stale now st a"
      with hd_filter_ahead [OF inv_coreD(6) [OF core] ah, of "\<lambda>k. \<not> stale now st k"]
      have "hd (live now st) \<noteq> b" by (simp add: live_def)
      with P(2) show False by simp
    qed
    with P show ?thesis by simp
  qed
  have jq: "queue st' = queue st \<or> queue st' = queue st @ [sid]" if "c = JoinQueue sid fi" for sid fi
    using joinQueue_queue [OF top, of now sid fi] that by (simp add: assms(4))
  show ?thesis using ah pr jq by blast
qed

theorem fifo_no_overtaking_witness:
  "admissible new_QueueManager (ops_overtake @ [(640000, CompleteSession ''x'')]) \<and>
   clock_ok 0 (ops_overtake @ [(640000, CompleteSession ''x'')]) \<and>
   queue (run ops_overtake new_QueueManager) = [''a'', ''b''] \<and>
   joinedAt_of (run ops_overtake new_QueueManager) ''a''
     < joinedAt_of (run ops_overtake new_QueueManager) ''b'' \<and>
   ahead ''a'' ''b'' (queue (run ops_overtake new_QueueManager)) \<and>
   activeSession (completeSession 640000 ''x'' (run ops_overtake new_QueueManager)) = Some ''b'' \<and>
   stale 640000 (run ops_overtake new_QueueManager) ''a''"
proof -
  have h: "admissible new_QueueManager (ops_overtake @ [(640000, CompleteSession ''x'')])"
    by code_simp
  have k: "clock_ok 0 (ops_overtake @ [(640000, CompleteSession ''x'')])" by code_simp
  have q: "queue (run ops_overtake new_QueueManager) = [''a'', ''b'']" by code_simp
  have j: "joinedAt_of (run ops_overtake new_QueueManager) ''a''
             < joinedAt_of (run ops_overtake new_QueueManager) ''b''" by code_simp
  have p: "activeSession (completeSession 640000 ''x'' (run ops_overtake new_QueueManager))
             = Some ''b''" by code_simp
  have qa: "''a'' \<in> set (queue (run ops_overtake new_QueueManager))"
    and qb: "''b'' \<in> set (queue (run ops_overtake new_QueueManager))"
    by (simp_all add: q)
  have e: "completeSession 640000 ''x'' (run ops_overtake new_QueueManager) =
             apply_op 640000 (CompleteSession ''x'') (run ops_overtake new_QueueManager)"
    by simp
  from fifo_no_overtaking [OF h k refl e qa qb j] p
  show ?thesis using h k q j by blast
qed

end
